theory Spec2Isabelle
  imports Complex_Main "HOL-Library.Multiset" "HOL-Library.Product_Lexorder"
begin

section \<open>Data model of piano-midi-optimizer.js\<close>

text \<open>
  Numbers of the source are JavaScript doubles. Pitches, channels, note counts and the
  configured ceilings are integers and are modelled as \<open>int\<close> or \<open>nat\<close>; times, durations,
  velocities and the average pitch are modelled as exact rationals, so rounding and NaN
  are outside the model. A velocity that is absent on the JavaScript object is \<open>None\<close>.
\<close>

datatype role = Melody | Bass | Harmony | Unknown

record midi_note =
  midi :: int
  time :: rat
  duration :: rat
  velocity :: "rat option"

text \<open>The expression \<^verbatim>\<open>note.velocity || 64\<close>: an absent or zero velocity is falsy.\<close>

definition velocityOr64 :: "rat option \<Rightarrow> rat" where
  "velocityOr64 v = (case v of None \<Rightarrow> 64 | Some x \<Rightarrow> if x = 0 then 64 else x)"

text \<open>The object literal \<^verbatim>\<open>{midi, time, duration, velocity: note.velocity || 64}\<close>,
  which the source writes out wherever it copies a note.\<close>

definition copyNote :: "'a midi_note_scheme \<Rightarrow> midi_note" where
  "copyNote n = \<lparr>midi = midi n, time = time n, duration = duration n,
                  velocity = Some (velocityOr64 (velocity n))\<rparr>"

record track_base =
  name :: string
  trackNotes :: "midi_note list"

record midi_track = track_base +
  channel :: int

record analyzed_track = track_base +
  index :: nat
  avgPitch :: rat
  trackRole :: role
  noteCount :: nat

text \<open>The entries of \<^verbatim>\<open>allNotes\<close>: a note together with the role of the track it came
  from (the field \<^verbatim>\<open>trackRole\<close> of the source, renamed because the analysed track has a
  field of the same name).\<close>

record collected_note = midi_note +
  noteRole :: role

text \<open>The header of a parsed file, as far as the source touches it: the four event lists
  (each entry with its tick), the name, and the resolution, which is never copied.\<close>

record midi_header =
  tempos :: "(int \<times> rat) list"
  timeSignatures :: "(int \<times> int \<times> int) list"
  keySignatures :: "(int \<times> string \<times> string) list"
  meta :: "(int \<times> string \<times> string) list"
  headerName :: string
  ppq :: int

record midi_file =
  header :: midi_header
  tracks :: "midi_track list"
  midiDuration :: rat

record config =
  maxRightHandNotes :: int
  maxLeftHandNotes :: int
  splitPoint :: int
  dynamicSplitPoint :: bool
  preserveMelody :: bool
  preserveBass :: bool

record arrangement =
  rightHand :: "midi_note list"
  leftHand :: "midi_note list"

section \<open>Track classifier: analyzeMidiTracks\<close>

fun digitsOf :: "nat \<Rightarrow> string" where
  "digitsOf n = (if n < 10 then [char_of (48 + n)]
                 else digitsOf (n div 10) @ [char_of (48 + n mod 10)])"

declare digitsOf.simps [simp del]

text \<open>The body of the \<^verbatim>\<open>forEach\<close> callback for a track that is kept. The variable
  \<^verbatim>\<open>trackRole\<close> starts as \<^verbatim>\<open>'unknown'\<close> and every branch of the \<^verbatim>\<open>if\<close> chain
  overwrites it.\<close>

definition analyzeTrack :: "nat \<Rightarrow> midi_track \<Rightarrow> analyzed_track" where
  "analyzeTrack i t =
    (let pitches = map midi (trackNotes t);
         avg = of_int (foldl (+) 0 pitches) / of_nat (length pitches);
         r = (if avg > 65 then Melody else if avg < 52 then Bass else Harmony)
     in \<lparr>name = (if name t = [] then ''Track '' @ digitsOf i else name t),
         trackNotes = map copyNote (trackNotes t),
         index = i, avgPitch = avg, trackRole = r, noteCount = length (trackNotes t)\<rparr>)"

text \<open>\<^verbatim>\<open>midi.tracks.forEach((track, index) => ...)\<close> with the array \<^verbatim>\<open>analyzedTracks\<close>
  as accumulator; the early \<^verbatim>\<open>return\<close> skips empty tracks and tracks on channel 9.\<close>

fun analyzeTracksFrom ::
  "nat \<Rightarrow> midi_track list \<Rightarrow> analyzed_track list \<Rightarrow> analyzed_track list" where
  "analyzeTracksFrom i [] acc = acc"
| "analyzeTracksFrom i (t # ts) acc =
    (if length (trackNotes t) = 0 \<or> channel t = 9 then analyzeTracksFrom (Suc i) ts acc
     else analyzeTracksFrom (Suc i) ts (acc @ [analyzeTrack i t]))"

definition analyzeMidiTracks :: "midi_file \<Rightarrow> analyzed_track list" where
  "analyzeMidiTracks m = analyzeTracksFrom 0 (tracks m) []"

section \<open>Initial hand distributor: createPianoArrangement\<close>

text \<open>The comparator handed to \<^verbatim>\<open>Array.prototype.sort\<close>.\<close>

definition compareTracks :: "analyzed_track \<Rightarrow> analyzed_track \<Rightarrow> int" where
  "compareTracks a b =
    (if trackRole a = Melody \<and> trackRole b \<noteq> Melody then - 1
     else if trackRole a \<noteq> Melody \<and> trackRole b = Melody then 1
     else if trackRole a = Bass \<and> trackRole b \<noteq> Bass then - 1
     else if trackRole a \<noteq> Bass \<and> trackRole b = Bass then 1
     else int (noteCount b) - int (noteCount a))"

text \<open>
  \<^verbatim>\<open>Array.prototype.sort\<close> belongs to the JavaScript runtime. ECMAScript requires it to be
  stable and, for a consistent comparator, to return the elements in comparator order;
  that result is unique, and a stable insertion sort computes it: an element goes in front
  of the first later element that it does not compare greater than.
\<close>

fun insertBy :: "('a \<Rightarrow> 'a \<Rightarrow> 'c::{zero,ord}) \<Rightarrow> 'a \<Rightarrow> 'a list \<Rightarrow> 'a list" where
  "insertBy cmp x [] = [x]"
| "insertBy cmp x (y # ys) = (if cmp x y \<le> 0 then x # y # ys else y # insertBy cmp x ys)"

definition arraySort :: "('a \<Rightarrow> 'a \<Rightarrow> 'c::{zero,ord}) \<Rightarrow> 'a list \<Rightarrow> 'a list" where
  "arraySort cmp xs = foldr (insertBy cmp) xs []"

definition sortTracks :: "analyzed_track list \<Rightarrow> analyzed_track list" where
  "sortTracks analyzedTracks = arraySort compareTracks analyzedTracks"

definition collectNote :: "analyzed_track \<Rightarrow> midi_note \<Rightarrow> collected_note" where
  "collectNote t n = \<lparr>midi = midi n, time = time n, duration = duration n,
                       velocity = Some (velocityOr64 (velocity n)), noteRole = trackRole t\<rparr>"

text \<open>The two nested \<^verbatim>\<open>forEach\<close> loops pushing onto \<^verbatim>\<open>allNotes\<close>.\<close>

definition collectNotes :: "analyzed_track list \<Rightarrow> collected_note list" where
  "collectNotes sortedTracks =
     foldl (\<lambda>allNotes t. foldl (\<lambda>acc n. acc @ [collectNote t n]) allNotes (trackNotes t))
       [] sortedTracks"

text \<open>One step of \<^verbatim>\<open>allNotes.forEach\<close>: push a copy onto one of the two hands.\<close>

definition distributeNote :: "config \<Rightarrow> arrangement \<Rightarrow> collected_note \<Rightarrow> arrangement" where
  "distributeNote cfg arr n =
    (if noteRole n = Melody \<or> midi n \<ge> splitPoint cfg
     then arr\<lparr>rightHand := rightHand arr @ [copyNote n]\<rparr>
     else arr\<lparr>leftHand := leftHand arr @ [copyNote n]\<rparr>)"

definition createPianoArrangement :: "analyzed_track list \<Rightarrow> config \<Rightarrow> arrangement" where
  "createPianoArrangement analyzedTracks cfg =
     foldl (distributeNote cfg) \<lparr>rightHand = [], leftHand = []\<rparr>
       (collectNotes (sortTracks analyzedTracks))"

section \<open>Arrangement emitter: generatePianoMidi\<close>

text \<open>
  \<^verbatim>\<open>Track.addNote\<close> belongs to the MIDI library, so it is a parameter: given the notes a
  track holds and a new note, it either throws or returns the notes the track holds
  afterwards. A call that throws is taken to leave the track as it was.
\<close>

type_synonym 'e add_note = "midi_note list \<Rightarrow> midi_note \<Rightarrow> 'e + midi_note list"

datatype hand = RightHand | LeftHand

text \<open>What \<^verbatim>\<open>console.error\<close> receives in this function.\<close>

datatype 'e log_entry =
    ErrorAddingNote hand nat midi_note 'e
  | WarningNoNotes nat nat

record out_track =
  outName :: string
  instrumentNumber :: int
  outNotes :: "midi_note list"

record output_midi =
  outHeader :: midi_header
  outTracks :: "out_track list"

text \<open>The header of \<^verbatim>\<open>new Midi()\<close>.\<close>

definition newMidiHeader :: midi_header where
  "newMidiHeader = \<lparr>tempos = [], timeSignatures = [], keySignatures = [], meta = [],
                     headerName = [], ppq = 480\<rparr>"

text \<open>\<^verbatim>\<open>forEach((x, index) => ...)\<close> with a callback that may throw: an exception that
  leaves the callback ends the loop and leaves \<^verbatim>\<open>forEach\<close>.\<close>

fun forEachIndexed ::
  "(nat \<Rightarrow> 'a \<Rightarrow> 's \<Rightarrow> 'e + 's) \<Rightarrow> nat \<Rightarrow> 'a list \<Rightarrow> 's \<Rightarrow> 'e + 's" where
  "forEachIndexed f i [] s = Inr s"
| "forEachIndexed f i (x # xs) s =
     (case f i x s of Inl e \<Rightarrow> Inl e | Inr s' \<Rightarrow> forEachIndexed f (Suc i) xs s')"

text \<open>\<^verbatim>\<open>try { body } catch (error) { handler }\<close> over a state.\<close>

definition tryCatch :: "('s \<Rightarrow> 'e + 's) \<Rightarrow> ('e \<Rightarrow> 's \<Rightarrow> 'e + 's) \<Rightarrow> 's \<Rightarrow> 'e + 's" where
  "tryCatch body handler s = (case body s of Inl e \<Rightarrow> handler e s | Inr s' \<Rightarrow> Inr s')"

text \<open>The callback of the two emission loops; the state is the notes of the track under
  construction and the error log.\<close>

definition addNoteLogged ::
  "'e add_note \<Rightarrow> hand \<Rightarrow> nat \<Rightarrow> midi_note
     \<Rightarrow> midi_note list \<times> 'e log_entry list \<Rightarrow> 'e + midi_note list \<times> 'e log_entry list" where
  "addNoteLogged addNote h i n =
     tryCatch
       (\<lambda>(trk, lg). case addNote trk (copyNote n) of Inl e \<Rightarrow> Inl e | Inr trk' \<Rightarrow> Inr (trk', lg))
       (\<lambda>e (trk, lg). Inr (trk, lg @ [ErrorAddingNote h i n e]))"

definition generatePianoMidi ::
  "'e add_note \<Rightarrow> midi_header \<Rightarrow> arrangement \<Rightarrow> 'e + output_midi \<times> 'e log_entry list" where
  "generatePianoMidi addNote hdr arr =
    (let outputHeader = newMidiHeader\<lparr>tempos := tempos hdr, timeSignatures := timeSignatures hdr,
           keySignatures := keySignatures hdr, meta := meta hdr, headerName := headerName hdr\<rparr>
     in case forEachIndexed (addNoteLogged addNote RightHand) 0 (rightHand arr) ([], []) of
          Inl e \<Rightarrow> Inl e
        | Inr (rightNotes, lg1) \<Rightarrow>
           (case forEachIndexed (addNoteLogged addNote LeftHand) 0 (leftHand arr) ([], lg1) of
              Inl e \<Rightarrow> Inl e
            | Inr (leftNotes, lg2) \<Rightarrow>
                Inr (\<lparr>outHeader = outputHeader,
                      outTracks = [\<lparr>outName = ''Right Hand'', instrumentNumber = 0, outNotes = rightNotes\<rparr>,
                                   \<lparr>outName = ''Left Hand'', instrumentNumber = 0, outNotes = leftNotes\<rparr>]\<rparr>,
                     if length rightNotes = 0 \<and> length leftNotes = 0
                     then lg2 @ [WarningNoNotes (length (rightHand arr)) (length (leftHand arr))]
                     else lg2)))"

section \<open>The pipeline: optimizeMidiForPiano\<close>

text \<open>The \<^verbatim>\<open>options\<close> argument: any of the six settings may be missing.\<close>

record options =
  optMaxRightHandNotes :: "int option"
  optMaxLeftHandNotes :: "int option"
  optSplitPoint :: "int option"
  optDynamicSplitPoint :: "bool option"
  optPreserveMelody :: "bool option"
  optPreserveBass :: "bool option"

text \<open>\<^verbatim>\<open>{ ...defaultOptions, ...options }\<close>.\<close>

definition mergeOptions :: "options \<Rightarrow> config" where
  "mergeOptions opts =
     \<lparr>maxRightHandNotes = (case optMaxRightHandNotes opts of None \<Rightarrow> 12 | Some v \<Rightarrow> v),
      maxLeftHandNotes = (case optMaxLeftHandNotes opts of None \<Rightarrow> 10 | Some v \<Rightarrow> v),
      splitPoint = (case optSplitPoint opts of None \<Rightarrow> 60 | Some v \<Rightarrow> v),
      dynamicSplitPoint = (case optDynamicSplitPoint opts of None \<Rightarrow> True | Some v \<Rightarrow> v),
      preserveMelody = (case optPreserveMelody opts of None \<Rightarrow> True | Some v \<Rightarrow> v),
      preserveBass = (case optPreserveBass opts of None \<Rightarrow> True | Some v \<Rightarrow> v)\<rparr>"

record optimize_result =
  originalTracks :: nat
  rightHandNotes :: nat
  leftHandNotes :: nat
  resultDuration :: rat

text \<open>
  Reading and parsing the input file and writing the output file are the work of the
  file system and the MIDI library: \<open>readMidi\<close> is what reading and parsing gave, and
  \<open>writeFile\<close> says whether writing a given output throws. The function returns what it
  wrote, what it logged as errors, and its statistics; the \<^verbatim>\<open>catch\<close> of the source logs
  and rethrows, so every exception leaves the function.
\<close>

definition optimizeMidiForPiano ::
  "'e add_note \<Rightarrow> 'e + midi_file \<Rightarrow> (output_midi \<Rightarrow> 'e option) \<Rightarrow> options
     \<Rightarrow> 'e + output_midi \<times> 'e log_entry list \<times> optimize_result" where
  "optimizeMidiForPiano addNote readMidi writeFile opts =
    (let cfg = mergeOptions opts in
     case readMidi of
       Inl e \<Rightarrow> Inl e
     | Inr midiFile \<Rightarrow>
        (let analyzedTracks = analyzeMidiTracks midiFile;
             pianoArrangement = createPianoArrangement analyzedTracks cfg
         in case generatePianoMidi addNote (header midiFile) pianoArrangement of
              Inl e \<Rightarrow> Inl e
            | Inr (outputMidi, lg) \<Rightarrow>
               (case writeFile outputMidi of
                  Some e \<Rightarrow> Inl e
                | None \<Rightarrow>
                    Inr (outputMidi, lg,
                         \<lparr>originalTracks = length (tracks midiFile),
                          rightHandNotes = length (rightHand pianoArrangement),
                          leftHandNotes = length (leftHand pianoArrangement),
                          resultDuration = midiDuration midiFile\<rparr>))))"

section \<open>Polyphony balancer: optimizeSimultaneousNotes\<close>

text \<open>
  The balancer copies note objects, builds new arrays and then changes arrays in place
  with \<^verbatim>\<open>splice\<close> and \<^verbatim>\<open>push\<close>, and it finds a note in an array by identity
  (\<^verbatim>\<open>indexOf\<close>). Its model therefore runs on an explicit store: note objects and arrays of
  notes live at addresses, an address is the index into the list of objects or of arrays,
  and allocation appends. The set of time points, the sorted time points and the array of
  slices hold numbers and records, not notes, and are values.
\<close>

type_synonym ref = nat

record store =
  objs :: "midi_note list"
  arrs :: "ref list list"

datatype js_error = TypeError

definition noteAt :: "store \<Rightarrow> ref \<Rightarrow> midi_note" where
  "noteAt s r = objs s ! r"

definition arrayAt :: "store \<Rightarrow> ref \<Rightarrow> ref list" where
  "arrayAt s a = arrs s ! a"

definition newObj :: "midi_note \<Rightarrow> store \<Rightarrow> ref \<times> store" where
  "newObj n s = (length (objs s), s\<lparr>objs := objs s @ [n]\<rparr>)"

definition newArr :: "ref list \<Rightarrow> store \<Rightarrow> ref \<times> store" where
  "newArr rs s = (length (arrs s), s\<lparr>arrs := arrs s @ [rs]\<rparr>)"

text \<open>\<^verbatim>\<open>a.push(r)\<close>.\<close>

definition push :: "ref \<Rightarrow> ref \<Rightarrow> store \<Rightarrow> store" where
  "push a r s = s\<lparr>arrs := (arrs s)[a := arrayAt s a @ [r]]\<rparr>"

text \<open>\<^verbatim>\<open>xs.indexOf(r)\<close>: the first index that holds the reference, or \<open>-1\<close>.\<close>

fun indexOf :: "ref list \<Rightarrow> ref \<Rightarrow> int" where
  "indexOf [] r = - 1"
| "indexOf (x # xs) r =
     (if x = r then 0 else (let i = indexOf xs r in if i < 0 then - 1 else i + 1))"

text \<open>\<^verbatim>\<open>a.splice(start, 1)\<close>: a negative start counts from the end of the array, and one
  element is removed where the start lies inside the array.\<close>

definition splice1 :: "ref \<Rightarrow> int \<Rightarrow> store \<Rightarrow> store" where
  "splice1 a start s =
    (let xs = arrayAt s a;
         len = int (length xs);
         actualStart = nat (if start < 0 then max (len + start) 0 else min start len)
     in s\<lparr>arrs := (arrs s)[a := take actualStart xs @ drop (Suc actualStart) xs]\<rparr>)"

text \<open>\<^verbatim>\<open>a.map(note => ({...note}))\<close>: one new object per element, then a new array.\<close>

fun copyAll :: "ref list \<Rightarrow> store \<Rightarrow> ref list \<times> store" where
  "copyAll [] s = ([], s)"
| "copyAll (r # rs) s =
     (let (r', s1) = newObj (noteAt s r) s;
          (rs', s2) = copyAll rs s1
      in (r' # rs', s2))"

definition mapCopy :: "ref \<Rightarrow> store \<Rightarrow> ref \<times> store" where
  "mapCopy a s = (let (rs, s1) = copyAll (arrayAt s a) s in newArr rs s1)"

subsection \<open>createTimeSlices\<close>

record time_slice =
  startTime :: rat
  endTime :: rat
  sliceDuration :: rat
  sliceNotes :: ref

text \<open>\<^verbatim>\<open>timePoints.add(t)\<close> on a \<^verbatim>\<open>Set\<close>, which keeps insertion order.\<close>

definition addTimePoint :: "rat \<Rightarrow> rat list \<Rightarrow> rat list" where
  "addTimePoint t timePoints = (if t \<in> set timePoints then timePoints else timePoints @ [t])"

definition collectTimePoints :: "store \<Rightarrow> ref list \<Rightarrow> rat list" where
  "collectTimePoints s rs =
     foldl (\<lambda>timePoints r.
              addTimePoint (time (noteAt s r) + duration (noteAt s r))
                (addTimePoint (time (noteAt s r)) timePoints))
       [] rs"

text \<open>The test used by every \<^verbatim>\<open>filter\<close> on notes: the note covers the slice.\<close>

definition covers :: "midi_note \<Rightarrow> rat \<Rightarrow> rat \<Rightarrow> bool" where
  "covers n startT endT = (time n \<le> startT \<and> time n + duration n \<ge> endT)"

text \<open>\<^verbatim>\<open>a.filter(note => ...)\<close>: a new array with the references that pass.\<close>

definition filterActive :: "ref \<Rightarrow> rat \<Rightarrow> rat \<Rightarrow> store \<Rightarrow> ref \<times> store" where
  "filterActive a startT endT s = newArr (filter (\<lambda>r. covers (noteAt s r) startT endT) (arrayAt s a)) s"

text \<open>The \<^verbatim>\<open>for\<close> loop over adjacent pairs of sorted time points.\<close>

fun buildSlices :: "ref \<Rightarrow> rat list \<Rightarrow> store \<Rightarrow> time_slice list \<times> store" where
  "buildSlices a (t0 # t1 # ts) s =
     (let (activeNotes, s1) = filterActive a t0 t1 s;
          (slices, s2) = buildSlices a (t1 # ts) s1
      in (\<lparr>startTime = t0, endTime = t1, sliceDuration = t1 - t0, sliceNotes = activeNotes\<rparr> # slices,
          s2))"
| "buildSlices a ts s = ([], s)"

definition createTimeSlices :: "ref \<Rightarrow> store \<Rightarrow> time_slice list \<times> store" where
  "createTimeSlices a s =
     buildSlices a (arraySort (\<lambda>x y. x - y) (collectTimePoints s (arrayAt s a))) s"

subsection \<open>The two rebalancing loops\<close>

text \<open>
  \<^verbatim>\<open>xs.reduce((a, b) => keep(a, b) ? a : b)\<close> without an initial value: a \<^verbatim>\<open>TypeError\<close> on
  the empty array, otherwise a left fold that starts from the first element. The source
  calls it with \<^verbatim>\<open>a.midi < b.midi\<close> and with \<^verbatim>\<open>a.midi > b.midi\<close>.
\<close>

definition reduceNotes ::
  "(midi_note \<Rightarrow> midi_note \<Rightarrow> bool) \<Rightarrow> store \<Rightarrow> ref list \<Rightarrow> js_error + ref" where
  "reduceNotes keep s xs =
     (case xs of
        [] \<Rightarrow> Inl TypeError
      | x # rest \<Rightarrow> Inr (foldl (\<lambda>a b. if keep (noteAt s a) (noteAt s b) then a else b) x rest))"

definition lowerPitch :: "midi_note \<Rightarrow> midi_note \<Rightarrow> bool" where
  "lowerPitch a b = (midi a < midi b)"

definition higherPitch :: "midi_note \<Rightarrow> midi_note \<Rightarrow> bool" where
  "higherPitch a b = (midi a > midi b)"

text \<open>The body of either \<^verbatim>\<open>while\<close> loop: pick a note of \<open>src\<close>, splice it out, push it
  onto \<open>dst\<close>.\<close>

definition moveNote ::
  "(midi_note \<Rightarrow> midi_note \<Rightarrow> bool) \<Rightarrow> ref \<Rightarrow> ref \<Rightarrow> store \<Rightarrow> js_error + store" where
  "moveNote keep src dst s =
     (case reduceNotes keep s (arrayAt s src) of
        Inl e \<Rightarrow> Inl e
      | Inr picked \<Rightarrow> Inr (push dst picked (splice1 src (indexOf (arrayAt s src) picked) s)))"

text \<open>\<^verbatim>\<open>while (src.length > limit) { ... }\<close>. The loop may throw, and nothing in its text
  bounds the number of its iterations, so the result is optional: \<open>None\<close> stands for a loop
  that runs forever.\<close>

partial_function (option) moveWhileOver ::
  "(midi_note \<Rightarrow> midi_note \<Rightarrow> bool) \<Rightarrow> int \<Rightarrow> ref \<Rightarrow> ref \<Rightarrow> store
     \<Rightarrow> ((js_error + unit) \<times> store) option" where
  "moveWhileOver keep limit src dst s =
     (if int (length (arrayAt s src)) > limit
      then (case moveNote keep src dst s of
              Inl e \<Rightarrow> Some (Inl e, s)
            | Inr s' \<Rightarrow> moveWhileOver keep limit src dst s')
      else Some (Inr (), s))"

declare moveWhileOver.simps [code]

text \<open>The two loops of one slice, one after the other.\<close>

definition rebalance ::
  "config \<Rightarrow> ref \<Rightarrow> ref \<Rightarrow> store \<Rightarrow> ((js_error + unit) \<times> store) option" where
  "rebalance cfg simultaneousRight simultaneousLeft s =
     (case moveWhileOver lowerPitch (maxRightHandNotes cfg) simultaneousRight simultaneousLeft s of
        None \<Rightarrow> None
      | Some (Inl e, s1) \<Rightarrow> Some (Inl e, s1)
      | Some (Inr u, s1) \<Rightarrow>
          moveWhileOver higherPitch (maxLeftHandNotes cfg) simultaneousLeft simultaneousRight s1)"

subsection \<open>Merging a slice into the result\<close>

text \<open>The callback of \<^verbatim>\<open>simultaneousRight.forEach\<close>: push a copy unless the result holds a
  note with the same time and pitch.\<close>

definition mergeNote :: "ref \<Rightarrow> store \<Rightarrow> ref \<Rightarrow> store" where
  "mergeNote optimized s r =
     (if list_ex (\<lambda>n. time (noteAt s n) = time (noteAt s r) \<and> midi (noteAt s n) = midi (noteAt s r))
           (arrayAt s optimized)
      then s
      else (let (c, s1) = newObj (noteAt s r) s in push optimized c s1))"

definition mergeInto :: "ref \<Rightarrow> ref \<Rightarrow> store \<Rightarrow> store" where
  "mergeInto optimized simultaneous s = foldl (mergeNote optimized) s (arrayAt s simultaneous)"

subsection \<open>The function\<close>

definition processSlice ::
  "config \<Rightarrow> ref \<Rightarrow> ref \<Rightarrow> ref \<Rightarrow> ref \<Rightarrow> time_slice \<Rightarrow> store
     \<Rightarrow> ((js_error + unit) \<times> store) option" where
  "processSlice cfg rightHandCopy leftHandCopy optimizedRight optimizedLeft slice s =
    (let (simultaneousRight, s1) = filterActive rightHandCopy (startTime slice) (endTime slice) s;
         (simultaneousLeft, s2) = filterActive leftHandCopy (startTime slice) (endTime slice) s1
     in case rebalance cfg simultaneousRight simultaneousLeft s2 of
          None \<Rightarrow> None
        | Some (Inl e, s3) \<Rightarrow> Some (Inl e, s3)
        | Some (Inr u, s3) \<Rightarrow>
            Some (Inr (), mergeInto optimizedLeft simultaneousLeft
                            (mergeInto optimizedRight simultaneousRight s3)))"

text \<open>\<^verbatim>\<open>timeSlices.forEach\<close> with a callback that may throw or run forever.\<close>

fun forEachSlice ::
  "('a \<Rightarrow> store \<Rightarrow> ((js_error + unit) \<times> store) option) \<Rightarrow> 'a list \<Rightarrow> store
     \<Rightarrow> ((js_error + unit) \<times> store) option" where
  "forEachSlice f [] s = Some (Inr (), s)"
| "forEachSlice f (x # xs) s =
     (case f x s of
        None \<Rightarrow> None
      | Some (Inl e, s') \<Rightarrow> Some (Inl e, s')
      | Some (Inr u, s') \<Rightarrow> forEachSlice f xs s')"

text \<open>The arguments are the addresses of the two input arrays; the result holds the
  addresses of the two arrays returned, or the exception, and the store afterwards.\<close>

definition optimizeSimultaneousNotes ::
  "ref \<Rightarrow> ref \<Rightarrow> config \<Rightarrow> store \<Rightarrow> ((js_error + ref \<times> ref) \<times> store) option" where
  "optimizeSimultaneousNotes rightHandArr leftHandArr cfg s =
    (let (rightHandCopy, s1) = mapCopy rightHandArr s;
         (leftHandCopy, s2) = mapCopy leftHandArr s1;
         (allNotes, s3) = newArr (arrayAt s2 rightHandCopy @ arrayAt s2 leftHandCopy) s2;
         (timeSlices, s4) = createTimeSlices allNotes s3;
         (optimizedRight, s5) = newArr [] s4;
         (optimizedLeft, s6) = newArr [] s5
     in case forEachSlice (processSlice cfg rightHandCopy leftHandCopy optimizedRight optimizedLeft)
               timeSlices s6 of
          None \<Rightarrow> None
        | Some (Inl e, s7) \<Rightarrow> Some (Inl e, s7)
        | Some (Inr u, s7) \<Rightarrow> Some (Inr (optimizedRight, optimizedLeft), s7))"

text \<open>An arrangement placed in an empty store, right hand at array 0 and left hand at
  array 1, and the arrangement that two arrays of a store hold.\<close>

definition storeOf :: "arrangement \<Rightarrow> store" where
  "storeOf a = \<lparr>objs = rightHand a @ leftHand a,
                arrs = [[0..<length (rightHand a)],
                        [length (rightHand a)..<length (rightHand a) + length (leftHand a)]]\<rparr>"

definition arrangementAt :: "store \<Rightarrow> ref \<times> ref \<Rightarrow> arrangement" where
  "arrangementAt s p = \<lparr>rightHand = map (noteAt s) (arrayAt s (fst p)), leftHand = map (noteAt s) (arrayAt s (snd p))\<rparr>"

section \<open>Predicates and example inputs used in the statements\<close>

text \<open>A note whose velocity is present and not zero: \<^verbatim>\<open>note.velocity || 64\<close> leaves it alone.\<close>

definition hasVelocity :: "midi_note \<Rightarrow> bool" where
  "hasVelocity n = (case velocity n of None \<Rightarrow> False | Some v \<Rightarrow> v \<noteq> 0)"

text \<open>Tracks as the classifier hands them on: every note carries a velocity.\<close>

definition classifiedTracks :: "analyzed_track list \<Rightarrow> bool" where
  "classifiedTracks ts = list_all (\<lambda>t. list_all hasVelocity (trackNotes t)) ts"

text \<open>The guard of \<^verbatim>\<open>analyzeMidiTracks\<close>, negated: the track is not skipped.\<close>

definition keptTrack :: "midi_track \<Rightarrow> bool" where
  "keptTrack t = (trackNotes t \<noteq> [] \<and> channel t \<noteq> 9)"

text \<open>The condition of the \<^verbatim>\<open>if\<close> in the distribution loop.\<close>

definition goesRight :: "config \<Rightarrow> collected_note \<Rightarrow> bool" where
  "goesRight cfg n = (noteRole n = Melody \<or> midi n \<ge> splitPoint cfg)"

text \<open>The three tiers that the first four lines of the comparator tell apart.\<close>

definition priorityGroup :: "role \<Rightarrow> nat" where
  "priorityGroup r = (case r of Melody \<Rightarrow> 0 | Bass \<Rightarrow> 1 | _ \<Rightarrow> 2)"

definition trackKey :: "analyzed_track \<Rightarrow> nat \<times> int" where
  "trackKey t = (priorityGroup (trackRole t), - int (noteCount t))"

text \<open>The defaults of \<^verbatim>\<open>optimizeMidiForPiano\<close>.\<close>

definition defaultOptions :: config where
  "defaultOptions = \<lparr>maxRightHandNotes = 12, maxLeftHandNotes = 10, splitPoint = 60,
     dynamicSplitPoint = True, preserveMelody = True, preserveBass = True\<rparr>"

definition mkNote :: "int \<Rightarrow> rat \<Rightarrow> rat \<Rightarrow> rat option \<Rightarrow> midi_note" where
  "mkNote p t d v = \<lparr>midi = p, time = t, duration = d, velocity = v\<rparr>"

definition emptyHeader :: midi_header where
  "emptyHeader = \<lparr>tempos = [], timeSignatures = [], keySignatures = [], meta = [],
                   headerName = [], ppq = 96\<rparr>"

text \<open>A file with a melody track that holds a low note, a percussion track, an empty
  track, an unnamed harmony track around the split point and a bass track.\<close>

definition exampleMidi :: midi_file where
  "exampleMidi = \<lparr>header = emptyHeader\<lparr>tempos := [(0, 120)], headerName := ''song''\<rparr>,
     tracks = [
       \<lparr>name = ''Lead'', trackNotes = [mkNote 100 0 1 None, mkNote 40 1 1 (Some (4/5))], channel = 0\<rparr>,
       \<lparr>name = ''Drums'', trackNotes = [mkNote 36 0 1 (Some 1)], channel = 9\<rparr>,
       \<lparr>name = [], trackNotes = [], channel = 1\<rparr>,
       \<lparr>name = [], trackNotes = [mkNote 59 0 2 (Some (1/2)), mkNote 60 0 2 (Some 0)], channel = 2\<rparr>,
       \<lparr>name = ''Bass'', trackNotes = [mkNote 40 0 4 (Some (1/2))], channel = 3\<rparr>],
     midiDuration = 4\<rparr>"

text \<open>Two melody tracks, the shorter one first.\<close>

definition twoMelodies :: midi_file where
  "twoMelodies = \<lparr>header = emptyHeader,
     tracks = [
       \<lparr>name = ''Flute'', trackNotes = [mkNote 72 0 1 (Some 1)], channel = 0\<rparr>,
       \<lparr>name = ''Violin'', trackNotes = [mkNote 76 0 1 (Some 1), mkNote 79 1 1 (Some 1)], channel = 1\<rparr>],
     midiDuration = 2\<rparr>"

text \<open>
  What the emitter is to achieve, said without exceptions: the notes a track holds once
  every note of a hand has been offered to it in order, a rejected note being passed
  over, and the log entries of the rejected notes.
\<close>

fun emitted :: "'e add_note \<Rightarrow> midi_note list \<Rightarrow> midi_note list \<Rightarrow> midi_note list" where
  "emitted addNote trk [] = trk"
| "emitted addNote trk (n # ns) =
     (case addNote trk (copyNote n) of
        Inl e \<Rightarrow> emitted addNote trk ns
      | Inr trk' \<Rightarrow> emitted addNote trk' ns)"

fun rejected ::
  "'e add_note \<Rightarrow> hand \<Rightarrow> nat \<Rightarrow> midi_note list \<Rightarrow> midi_note list \<Rightarrow> 'e log_entry list" where
  "rejected addNote h i trk [] = []"
| "rejected addNote h i trk (n # ns) =
     (case addNote trk (copyNote n) of
        Inl e \<Rightarrow> ErrorAddingNote h i n e # rejected addNote h (Suc i) trk ns
      | Inr trk' \<Rightarrow> rejected addNote h (Suc i) trk' ns)"

text \<open>Two stand-ins for the library's \<^verbatim>\<open>addNote\<close>: one that takes every note, and one that
  throws on the notes that fail a test and appends the others.\<close>

definition appendNote :: "js_error add_note" where
  "appendNote trk n = Inr (trk @ [n])"

definition appendIfValid :: "(midi_note \<Rightarrow> bool) \<Rightarrow> 'e \<Rightarrow> 'e add_note" where
  "appendIfValid valid err trk n = (if valid n then Inr (trk @ [n]) else Inl err)"

definition noOptions :: options where
  "noOptions = \<lparr>optMaxRightHandNotes = None, optMaxLeftHandNotes = None, optSplitPoint = None,
     optDynamicSplitPoint = None, optPreserveMelody = None, optPreserveBass = None\<rparr>"

text \<open>One melody track with a chord of three notes, and a right-hand ceiling of two.\<close>

definition chordMidi :: midi_file where
  "chordMidi = \<lparr>header = emptyHeader,
     tracks = [\<lparr>name = ''Piano'',
                trackNotes = [mkNote 70 0 1 (Some 1), mkNote 72 0 1 (Some 1), mkNote 75 0 1 (Some 1)],
                channel = 0\<rparr>],
     midiDuration = 1\<rparr>"

definition chordOptions :: options where
  "chordOptions = noOptions\<lparr>optMaxRightHandNotes := Some 2\<rparr>"

text \<open>An arrangement whose middle right-hand note starts before time zero.\<close>

definition badNoteArrangement :: arrangement where
  "badNoteArrangement =
     \<lparr>rightHand = [mkNote 72 0 1 (Some 1), mkNote 74 (- 1) 1 (Some 1), mkNote 76 1 1 (Some 1)],
      leftHand = [mkNote 48 0 2 (Some 1)]\<rparr>"

text \<open>
  How one store arises from another: \<open>evolves W s s'\<close> says that \<open>s'\<close> holds every
  object of \<open>s\<close> unchanged at its address, and every array of \<open>s\<close> outside \<open>W\<close> unchanged at
  its address; it may hold more objects and more arrays.
\<close>

definition evolves :: "ref set \<Rightarrow> store \<Rightarrow> store \<Rightarrow> bool" where
  "evolves W s s' =
     (take (length (objs s)) (objs s') = objs s \<and> length (objs s) \<le> length (objs s') \<and>
      length (arrs s) \<le> length (arrs s') \<and>
      (\<forall>a<length (arrs s). a \<notin> W \<longrightarrow> arrs s' ! a = arrs s ! a))"

text \<open>The array \<open>tgt\<close> has only grown, by distinct references to objects allocated since.\<close>

definition appended :: "ref \<Rightarrow> store \<Rightarrow> store \<Rightarrow> bool" where
  "appended tgt s s' =
     (evolves {tgt} s s' \<and> length (arrs s') = length (arrs s) \<and>
      (\<exists>news. arrs s' ! tgt = arrs s ! tgt @ news \<and> distinct news \<and>
               set news \<subseteq> {length (objs s)..<length (objs s')}))"

text \<open>What the processing of slices does to the store: only the two result arrays
  change among the arrays that existed, and they only grow, by distinct references to
  objects allocated since.\<close>

definition sliceEffect :: "ref \<Rightarrow> ref \<Rightarrow> store \<Rightarrow> store \<Rightarrow> bool" where
  "sliceEffect oR oL s s' =
     (evolves {oR, oL} s s' \<and>
      (\<exists>nr. arrs s' ! oR = arrs s ! oR @ nr \<and> distinct nr \<and>
            set nr \<subseteq> {length (objs s)..<length (objs s')}) \<and>
      (\<exists>nl. arrs s' ! oL = arrs s ! oL @ nl \<and> distinct nl \<and>
            set nl \<subseteq> {length (objs s)..<length (objs s')}))"

text \<open>Two right-hand notes of the same pitch that overlap from time 1 to time 2, and a
  right-hand ceiling of one.\<close>

definition tiedNotes :: arrangement where
  "tiedNotes = \<lparr>rightHand = [mkNote 60 0 2 (Some 1), mkNote 60 1 1 (Some 1)], leftHand = []\<rparr>"

definition ceilingOne :: config where
  "ceilingOne = defaultOptions\<lparr>maxRightHandNotes := 1\<rparr>"

text \<open>Two notes sounding together, a right-hand ceiling of one and a left-hand ceiling of
  zero; and a negative right-hand ceiling.\<close>

definition twoTogether :: arrangement where
  "twoTogether = \<lparr>rightHand = [mkNote 64 0 1 (Some 1), mkNote 67 0 1 (Some 1)], leftHand = []\<rparr>"

definition ceilingsOneZero :: config where
  "ceilingsOneZero = defaultOptions\<lparr>maxRightHandNotes := 1, maxLeftHandNotes := 0\<rparr>"

definition negativeCeiling :: config where
  "negativeCeiling = defaultOptions\<lparr>maxRightHandNotes := - 1\<rparr>"

definition negativeLeftCeiling :: config where
  "negativeLeftCeiling = defaultOptions\<lparr>maxLeftHandNotes := - 1\<rparr>"

text \<open>The store in which the balancer, run on \<open>twoTogether\<close>, processes its only slice:
  the input arrays 0 and 1, their copies 2 and 3, the array of all notes 4, the notes of
  the slice 5, and the two result arrays 6 and 7, still empty.\<close>

definition sliceStore :: store where
  "sliceStore = \<lparr>objs = [mkNote 64 0 1 (Some 1), mkNote 67 0 1 (Some 1),
                        mkNote 64 0 1 (Some 1), mkNote 67 0 1 (Some 1)],
                arrs = [[0, 1], [], [2, 3], [], [2, 3], [2, 3], [], []]\<rparr>"

definition onlySlice :: time_slice where
  "onlySlice = \<lparr>startTime = 0, endTime = 1, sliceDuration = 1, sliceNotes = 5\<rparr>"

text \<open>The balancer as a caller sees it on values: run it on the arrangement placed in a
  store and read the two returned arrays back.\<close>

definition balancedArrangement :: "config \<Rightarrow> arrangement \<Rightarrow> (js_error + arrangement) option" where
  "balancedArrangement cfg a =
     map_option (\<lambda>(res, s'). case res of Inl e \<Rightarrow> Inl e | Inr p \<Rightarrow> Inr (arrangementAt s' p))
       (optimizeSimultaneousNotes 0 1 cfg (storeOf a))"

text \<open>Three notes sounding together in the right hand, of pitches 70, 72 and 75, and a
  right-hand ceiling of two.\<close>

definition chordHands :: arrangement where
  "chordHands = \<lparr>rightHand = [mkNote 70 0 1 (Some 1), mkNote 72 0 1 (Some 1), mkNote 75 0 1 (Some 1)],
                  leftHand = []\<rparr>"

definition ceilingTwo :: config where
  "ceilingTwo = defaultOptions\<lparr>maxRightHandNotes := 2\<rparr>"

text \<open>Three notes sounding together in the right hand, the first and the last of the same
  lowest pitch; three notes sounding together in the left hand, the first and the last of
  the same highest pitch, and a left-hand ceiling of two.\<close>

definition tiedChord :: arrangement where
  "tiedChord = \<lparr>rightHand = [mkNote 60 0 1 (Some 1), mkNote 67 0 1 (Some 1), mkNote 60 0 2 (Some 1)],
                 leftHand = []\<rparr>"

definition tiedBass :: arrangement where
  "tiedBass = \<lparr>rightHand = [],
                leftHand = [mkNote 48 0 1 (Some 1), mkNote 43 0 1 (Some 1), mkNote 48 0 2 (Some 1)]\<rparr>"

definition leftCeilingTwo :: config where
  "leftCeilingTwo = defaultOptions\<lparr>maxLeftHandNotes := 2\<rparr>"

section \<open>Verification of the classifier and the distributor\<close>

subsection \<open>Loops that push onto an array\<close>

lemma foldl_push: "foldl (\<lambda>acc x. acc @ [f x]) acc xs = acc @ map f xs"
  by (induction xs arbitrary: acc) auto

lemma collectNotes_eq:
  "collectNotes ts = concat (map (\<lambda>t. map (collectNote t) (trackNotes t)) ts)"
proof -
  have "foldl (\<lambda>allNotes t. foldl (\<lambda>acc n. acc @ [collectNote t n]) allNotes (trackNotes t)) acc ts
        = acc @ concat (map (\<lambda>t. map (collectNote t) (trackNotes t)) ts)" for acc
    by (induction ts arbitrary: acc) (auto simp: foldl_push)
  from this [of "[]"] show ?thesis by (simp add: collectNotes_def)
qed

lemma distribute_fold:
  "foldl (distributeNote cfg) arr ns =
     \<lparr>rightHand = rightHand arr @ map copyNote (filter (goesRight cfg) ns),
      leftHand = leftHand arr @ map copyNote (filter (\<lambda>n. \<not> goesRight cfg n) ns)\<rparr>"
  by (induction ns arbitrary: arr) (auto simp: distributeNote_def goesRight_def)

subsection \<open>Copies of notes\<close>

lemma copyNote_collectNote: "copyNote (collectNote t n) = copyNote n"
  by (simp add: copyNote_def collectNote_def velocityOr64_def split: option.splits)

lemma copyNote_id: "hasVelocity n \<Longrightarrow> copyNote n = n"
  by (cases n) (auto simp: copyNote_def hasVelocity_def velocityOr64_def split: option.splits)

lemma hasVelocity_copyNote: "hasVelocity (copyNote n)"
  by (simp add: hasVelocity_def copyNote_def velocityOr64_def split: option.splits)

lemma copyNote_idem: "copyNote (copyNote n) = copyNote n"
  by (simp add: copyNote_id hasVelocity_copyNote)

lemma copy_collected:
  "map copyNote (collectNotes xs) = map copyNote (concat (map trackNotes xs))"
  by (induction xs) (auto simp: collectNotes_eq copyNote_collectNote)

subsection \<open>The sort is a stable sort by tier and descending note count\<close>

lemma mset_insertBy: "mset (insertBy cmp x xs) = add_mset x (mset xs)"
  by (induction xs) auto

lemma mset_arraySort: "mset (arraySort cmp xs) = mset xs"
  by (induction xs) (auto simp: arraySort_def mset_insertBy)

lemma compareTracks_key: "compareTracks a b \<le> 0 \<longleftrightarrow> trackKey a \<le> trackKey b"
  by (cases "trackRole a"; cases "trackRole b")
     (simp_all add: compareTracks_def trackKey_def priorityGroup_def)

lemma insertBy_insort: "insertBy compareTracks x xs = insort_key trackKey x xs"
  by (induction xs) (simp_all add: compareTracks_key)

lemma sortTracks_sort_key: "sortTracks ts = sort_key trackKey ts"
  by (induction ts) (simp_all add: sortTracks_def arraySort_def insertBy_insort)

lemma sortTracks_nth:
  assumes "i < j" "j < length (sortTracks ts)"
  shows "trackKey (sortTracks ts ! i) \<le> trackKey (sortTracks ts ! j)"
proof -
  have "sorted (map trackKey (sortTracks ts))"
    by (simp add: sortTracks_sort_key)
  then show ?thesis using assms
    by (simp add: sorted_map sorted_wrt_iff_nth_less)
qed

subsection \<open>The notes of an arrangement\<close>

lemma mset_concat_cong:
  assumes "mset xs = mset ys"
  shows "mset (concat (map f xs)) = mset (concat (map f ys))"
proof -
  have "mset (concat (map f zs)) = sum_mset (image_mset (\<lambda>z. mset (f z)) (mset zs))" for zs
    by (induction zs) auto
  with assms show ?thesis by simp
qed

lemma mset_arrangement:
  "mset (rightHand (createPianoArrangement ts cfg)) + mset (leftHand (createPianoArrangement ts cfg))
   = image_mset copyNote (mset (concat (map trackNotes ts)))"
proof -
  let ?all = "collectNotes (sortTracks ts)"
  have "mset (rightHand (createPianoArrangement ts cfg)) + mset (leftHand (createPianoArrangement ts cfg))
      = image_mset copyNote (mset ?all)"
    by (simp add: createPianoArrangement_def distribute_fold flip: image_mset_union)
  also have "\<dots> = image_mset copyNote (mset (concat (map trackNotes (sortTracks ts))))"
    using copy_collected [of "sortTracks ts"] by (metis mset_map)
  also have "mset (concat (map trackNotes (sortTracks ts))) = mset (concat (map trackNotes ts))"
    by (rule mset_concat_cong) (simp add: sortTracks_def mset_arraySort)
  finally show ?thesis .
qed

lemma hands_by_track:
  "rightHand (createPianoArrangement ts cfg)
     = concat (map (\<lambda>t. map copyNote (filter (\<lambda>n. trackRole t = Melody \<or> splitPoint cfg \<le> midi n) (trackNotes t)))
                   (sortTracks ts)) \<and>
   leftHand (createPianoArrangement ts cfg)
     = concat (map (\<lambda>t. map copyNote (filter (\<lambda>n. \<not> (trackRole t = Melody \<or> splitPoint cfg \<le> midi n)) (trackNotes t)))
                   (sortTracks ts))"
proof -
  have g: "goesRight cfg (collectNote t n) \<longleftrightarrow> trackRole t = Melody \<or> splitPoint cfg \<le> midi n" for t n
    by (simp add: goesRight_def collectNote_def)
  have "map copyNote (filter (goesRight cfg) (collectNotes xs))
      = concat (map (\<lambda>t. map copyNote (filter (\<lambda>n. trackRole t = Melody \<or> splitPoint cfg \<le> midi n) (trackNotes t))) xs)"
    and "map copyNote (filter (\<lambda>n. \<not> goesRight cfg n) (collectNotes xs))
      = concat (map (\<lambda>t. map copyNote (filter (\<lambda>n. \<not> (trackRole t = Melody \<or> splitPoint cfg \<le> midi n)) (trackNotes t))) xs)"
    for xs
    by (induction xs) (simp_all add: collectNotes_eq filter_map comp_def g copyNote_collectNote)
  then show ?thesis
    by (simp add: createPianoArrangement_def distribute_fold)
qed

subsection \<open>What the classifier keeps\<close>

lemma index_analyzeTrack: "index (analyzeTrack i t) = i"
  by (simp add: analyzeTrack_def Let_def)

lemma notes_analyzeTrack: "trackNotes (analyzeTrack i t) = map copyNote (trackNotes t)"
  by (simp add: analyzeTrack_def Let_def)

lemma role_analyzeTrack: "trackRole (analyzeTrack i t) \<in> {Melody, Bass, Harmony}"
  by (simp add: analyzeTrack_def Let_def)

lemma analyzeTracksFrom_step:
  "analyzeTracksFrom i (t # ts) acc =
     analyzeTracksFrom (Suc i) ts (if keptTrack t then acc @ [analyzeTrack i t] else acc)"
  by (auto simp: keptTrack_def)

lemma index_analyzeTracksFrom:
  "map index (analyzeTracksFrom i ts acc)
   = map index acc @ filter (\<lambda>j. keptTrack (ts ! (j - i))) [i..<i + length ts]"
proof (induction ts arbitrary: i acc)
  case Nil
  then show ?case by simp
next
  case (Cons t ts)
  have up: "[i..<i + length (t # ts)] = i # [Suc i..<Suc i + length ts]"
    by (simp add: upt_rec)
  have tl: "filter (\<lambda>j. keptTrack ((t # ts) ! (j - i))) [Suc i..<Suc i + length ts]
      = filter (\<lambda>j. keptTrack (ts ! (j - Suc i))) [Suc i..<Suc i + length ts]"
    by (rule filter_cong) (auto simp: nth_Cons')
  show ?case
    unfolding up analyzeTracksFrom_step
    by (simp only: Cons.IH filter.simps tl) (simp add: index_analyzeTrack)
qed

lemma set_analyzeTracksFrom:
  "set (analyzeTracksFrom i ts acc)
   = set acc \<union> {analyzeTrack (i + k) (ts ! k) | k. k < length ts \<and> keptTrack (ts ! k)}"
proof (induction ts arbitrary: i acc)
  case Nil
  then show ?case by simp
next
  case (Cons t ts)
  have "{analyzeTrack (i + k) ((t # ts) ! k) | k. k < length (t # ts) \<and> keptTrack ((t # ts) ! k)}
      = (if keptTrack t then {analyzeTrack i t} else {})
        \<union> {analyzeTrack (Suc i + k) (ts ! k) | k. k < length ts \<and> keptTrack (ts ! k)}"
    (is "?L = ?R")
  proof (intro set_eqI iffI)
    fix x assume "x \<in> ?L"
    then obtain k where k: "x = analyzeTrack (i + k) ((t # ts) ! k)" "k < length (t # ts)"
      "keptTrack ((t # ts) ! k)" by blast
    then show "x \<in> ?R" by (cases k) auto
  next
    fix x assume "x \<in> ?R"
    then consider "keptTrack t" "x = analyzeTrack i t"
      | k where "x = analyzeTrack (Suc i + k) (ts ! k)" "k < length ts" "keptTrack (ts ! k)"
      by (auto split: if_splits)
    then show "x \<in> ?L"
    proof cases
      case 1
      then have "x = analyzeTrack (i + 0) ((t # ts) ! 0) \<and> 0 < length (t # ts) \<and> keptTrack ((t # ts) ! 0)"
        by simp
      then show ?thesis by blast
    next
      case 2
      then have "x = analyzeTrack (i + Suc k) ((t # ts) ! Suc k) \<and> Suc k < length (t # ts)
                 \<and> keptTrack ((t # ts) ! Suc k)"
        by simp
      then show ?thesis by blast
    qed
  qed
  then show ?case
    unfolding analyzeTracksFrom_step Cons.IH by auto
qed

lemma analyzeMidiTracks_member:
  assumes "t \<in> set (analyzeMidiTracks m)"
  shows "index t < length (tracks m) \<and> keptTrack (tracks m ! index t) \<and>
         t = analyzeTrack (index t) (tracks m ! index t)"
  using assms by (auto simp: analyzeMidiTracks_def set_analyzeTracksFrom index_analyzeTrack)

lemma notes_analyzeTracksFrom:
  "concat (map trackNotes (analyzeTracksFrom i ts acc))
     = concat (map trackNotes acc) @ map copyNote (concat (map trackNotes (filter keptTrack ts)))"
  by (induction ts arbitrary: i acc) (simp_all add: keptTrack_def notes_analyzeTrack)

lemma analyzeMidiTracks_notes:
  "concat (map trackNotes (analyzeMidiTracks m))
     = map copyNote (concat (map trackNotes (filter keptTrack (tracks m))))"
  by (simp add: analyzeMidiTracks_def notes_analyzeTracksFrom)

lemma analyzeMidiTracks_classified: "classifiedTracks (analyzeMidiTracks m)"
proof -
  have "list_all hasVelocity (trackNotes t)" if "t \<in> set (analyzeMidiTracks m)" for t
  proof -
    from that have "t = analyzeTrack (index t) (tracks m ! index t)"
      using analyzeMidiTracks_member by blast
    then have "trackNotes t = map copyNote (trackNotes (tracks m ! index t))"
      by (metis notes_analyzeTrack)
    then show ?thesis by (simp add: list_all_iff hasVelocity_copyNote)
  qed
  then show ?thesis by (simp add: classifiedTracks_def list_all_iff)
qed

subsection \<open>Claims about the classifier and the distributor\<close>

text \<open>
  Claim C1. The initial distribution loses no note and duplicates none: for every list
  of tracks and every configuration, the right-hand and the left-hand sequence together
  hold, as a multiset, exactly one copy of every note of every input track. For classified
  tracks, whose notes all carry a non-zero velocity, the copy of a note is the note
  itself, so the two hands together are exactly the multiset of all notes of all input
  tracks; and the tracks that \<open>analyzeMidiTracks\<close> returns are always classified in this
  sense.
\<close>

theorem createPianoArrangement_partitions_notes:
  "mset (rightHand (createPianoArrangement ts cfg)) + mset (leftHand (createPianoArrangement ts cfg))
     = image_mset copyNote (mset (concat (map trackNotes ts))) \<and>
   (classifiedTracks ts \<longrightarrow>
      mset (rightHand (createPianoArrangement ts cfg)) + mset (leftHand (createPianoArrangement ts cfg))
        = mset (concat (map trackNotes ts))) \<and>
   classifiedTracks (analyzeMidiTracks m)"
proof (intro conjI impI)
  show "mset (rightHand (createPianoArrangement ts cfg)) + mset (leftHand (createPianoArrangement ts cfg))
     = image_mset copyNote (mset (concat (map trackNotes ts)))"
    by (rule mset_arrangement)
  show "classifiedTracks (analyzeMidiTracks m)"
    by (rule analyzeMidiTracks_classified)
next
  assume "classifiedTracks ts"
  then have "map copyNote (concat (map trackNotes ts)) = concat (map trackNotes ts)"
    by (intro map_idI) (auto simp: copyNote_id classifiedTracks_def list_all_iff)
  then show "mset (rightHand (createPianoArrangement ts cfg)) + mset (leftHand (createPianoArrangement ts cfg))
        = mset (concat (map trackNotes ts))"
    by (metis mset_arrangement mset_map)
qed

theorem createPianoArrangement_partitions_notes_witness:
  "classifiedTracks (analyzeMidiTracks exampleMidi) \<and>
   concat (map trackNotes (analyzeMidiTracks exampleMidi))
     = [mkNote 100 0 1 (Some 64), mkNote 40 1 1 (Some (4/5)), mkNote 59 0 2 (Some (1/2)),
        mkNote 60 0 2 (Some 64), mkNote 40 0 4 (Some (1/2))] \<and>
   mset (rightHand (createPianoArrangement (analyzeMidiTracks exampleMidi) defaultOptions)) +
   mset (leftHand (createPianoArrangement (analyzeMidiTracks exampleMidi) defaultOptions))
   = mset [mkNote 100 0 1 (Some 64), mkNote 40 1 1 (Some (4/5)), mkNote 59 0 2 (Some (1/2)),
           mkNote 60 0 2 (Some 64), mkNote 40 0 4 (Some (1/2))]"
proof -
  have n: "concat (map trackNotes (analyzeMidiTracks exampleMidi))
      = [mkNote 100 0 1 (Some 64), mkNote 40 1 1 (Some (4/5)), mkNote 59 0 2 (Some (1/2)),
         mkNote 60 0 2 (Some 64), mkNote 40 0 4 (Some (1/2))]"
    by code_simp
  from createPianoArrangement_partitions_notes
         [of "analyzeMidiTracks exampleMidi" defaultOptions exampleMidi]
  have c: "classifiedTracks (analyzeMidiTracks exampleMidi)"
    and i: "classifiedTracks (analyzeMidiTracks exampleMidi) \<longrightarrow>
      mset (rightHand (createPianoArrangement (analyzeMidiTracks exampleMidi) defaultOptions)) +
      mset (leftHand (createPianoArrangement (analyzeMidiTracks exampleMidi) defaultOptions))
        = mset (concat (map trackNotes (analyzeMidiTracks exampleMidi)))"
    by blast+
  from i c n show ?thesis by simp
qed

text \<open>
  Claim C4. A note goes to the right hand if and only if the role of its track is melody
  or its pitch is at least the split point, and to the left hand otherwise: track by track
  in priority order, the right hand receives the copies of the notes that pass this test
  and the left hand the copies of those that fail it, in source order. With the split
  point 60 of the defaults, the example file sends the melody track's notes 100 and 40
  and the harmony track's note 60 to the right hand, and the bass note 40 and the harmony
  track's note 59 to the left hand.
\<close>

theorem createPianoArrangement_split_rule:
  "rightHand (createPianoArrangement ts cfg)
     = concat (map (\<lambda>t. map copyNote
                           (filter (\<lambda>n. trackRole t = Melody \<or> splitPoint cfg \<le> midi n) (trackNotes t)))
                   (sortTracks ts)) \<and>
   leftHand (createPianoArrangement ts cfg)
     = concat (map (\<lambda>t. map copyNote
                           (filter (\<lambda>n. \<not> (trackRole t = Melody \<or> splitPoint cfg \<le> midi n)) (trackNotes t)))
                   (sortTracks ts)) \<and>
   splitPoint defaultOptions = 60 \<and>
   map (\<lambda>t. (trackRole t, map midi (trackNotes t))) (analyzeMidiTracks exampleMidi)
     = [(Melody, [100, 40]), (Harmony, [59, 60]), (Bass, [40])] \<and>
   createPianoArrangement (analyzeMidiTracks exampleMidi) defaultOptions
     = \<lparr>rightHand = [mkNote 100 0 1 (Some 64), mkNote 40 1 1 (Some (4/5)), mkNote 60 0 2 (Some 64)],
        leftHand = [mkNote 40 0 4 (Some (1/2)), mkNote 59 0 2 (Some (1/2))]\<rparr>"
proof (intro conjI)
  show "rightHand (createPianoArrangement ts cfg)
     = concat (map (\<lambda>t. map copyNote
                           (filter (\<lambda>n. trackRole t = Melody \<or> splitPoint cfg \<le> midi n) (trackNotes t)))
                   (sortTracks ts))"
    using hands_by_track [of ts cfg] by simp
  show "leftHand (createPianoArrangement ts cfg)
     = concat (map (\<lambda>t. map copyNote
                           (filter (\<lambda>n. \<not> (trackRole t = Melody \<or> splitPoint cfg \<le> midi n)) (trackNotes t)))
                   (sortTracks ts))"
    using hands_by_track [of ts cfg] by simp
  show "splitPoint defaultOptions = 60"
    by (simp add: defaultOptions_def)
  show "map (\<lambda>t. (trackRole t, map midi (trackNotes t))) (analyzeMidiTracks exampleMidi)
     = [(Melody, [100, 40]), (Harmony, [59, 60]), (Bass, [40])]"
    by code_simp
  show "createPianoArrangement (analyzeMidiTracks exampleMidi) defaultOptions
     = \<lparr>rightHand = [mkNote 100 0 1 (Some 64), mkNote 40 1 1 (Some (4/5)), mkNote 60 0 2 (Some 64)],
        leftHand = [mkNote 40 0 4 (Some (1/2)), mkNote 59 0 2 (Some (1/2))]\<rparr>"
    by code_simp
qed

text \<open>
  Claim C5, as the code has it. The sorted tracks are a rearrangement of the input in
  which every melody track stands before every other track, every bass track before
  every track that is neither melody nor bass, and, inside each of the three tiers
  (melody, bass, the rest), tracks stand in descending note count; tracks of one tier with
  equal note counts keep their original relative order.
\<close>

theorem sortTracks_priority_order:
  "mset (sortTracks ts) = mset ts \<and>
   (\<forall>j<length (sortTracks ts). \<forall>i<j.
      (trackRole (sortTracks ts ! j) = Melody \<longrightarrow> trackRole (sortTracks ts ! i) = Melody) \<and>
      (trackRole (sortTracks ts ! j) = Bass \<longrightarrow> trackRole (sortTracks ts ! i) \<in> {Melody, Bass}) \<and>
      (priorityGroup (trackRole (sortTracks ts ! i)) = priorityGroup (trackRole (sortTracks ts ! j))
          \<longrightarrow> noteCount (sortTracks ts ! j) \<le> noteCount (sortTracks ts ! i))) \<and>
   (\<forall>g c. filter (\<lambda>t. priorityGroup (trackRole t) = g \<and> noteCount t = c) (sortTracks ts)
        = filter (\<lambda>t. priorityGroup (trackRole t) = g \<and> noteCount t = c) ts)"
proof (intro conjI allI impI)
  show "mset (sortTracks ts) = mset ts" by (simp add: sortTracks_sort_key)
next
  fix j i assume ji: "j < length (sortTracks ts)" "i < j"
  let ?a = "sortTracks ts ! i" and ?b = "sortTracks ts ! j"
  have le: "trackKey ?a \<le> trackKey ?b" using ji by (simp add: sortTracks_nth)
  { assume "trackRole ?b = Melody"
    with le show "trackRole ?a = Melody"
      by (cases "trackRole ?a") (simp_all add: trackKey_def priorityGroup_def) }
  { assume "trackRole ?b = Bass"
    with le show "trackRole ?a \<in> {Melody, Bass}"
      by (cases "trackRole ?a") (simp_all add: trackKey_def priorityGroup_def) }
  { assume "priorityGroup (trackRole ?a) = priorityGroup (trackRole ?b)"
    with le show "noteCount ?b \<le> noteCount ?a"
      by (simp add: trackKey_def) }
next
  fix g c
  have "(\<lambda>t. priorityGroup (trackRole t) = g \<and> noteCount t = c) = (\<lambda>t. trackKey t = (g, - int c))"
    by (auto simp: trackKey_def)
  then show "filter (\<lambda>t. priorityGroup (trackRole t) = g \<and> noteCount t = c) (sortTracks ts)
        = filter (\<lambda>t. priorityGroup (trackRole t) = g \<and> noteCount t = c) ts"
    by (simp add: sortTracks_sort_key sort_key_stable)
qed

theorem sortTracks_priority_order_witness:
  "(1::nat) < length (sortTracks (analyzeMidiTracks twoMelodies)) \<and> (0::nat) < 1 \<and>
   trackRole (sortTracks (analyzeMidiTracks twoMelodies) ! 1) = Melody \<and>
   trackRole (sortTracks (analyzeMidiTracks twoMelodies) ! 0) = Melody \<and>
   noteCount (sortTracks (analyzeMidiTracks twoMelodies) ! 1)
     \<le> noteCount (sortTracks (analyzeMidiTracks twoMelodies) ! 0) \<and>
   mset (sortTracks (analyzeMidiTracks twoMelodies)) = mset (analyzeMidiTracks twoMelodies)"
proof -
  have len: "(1::nat) < length (sortTracks (analyzeMidiTracks twoMelodies))"
    by code_simp
  have mel: "trackRole (sortTracks (analyzeMidiTracks twoMelodies) ! 1) = Melody"
    by code_simp
  from sortTracks_priority_order [of "analyzeMidiTracks twoMelodies"] len mel
  show ?thesis by (auto simp: priorityGroup_def)
qed

text \<open>
  The claim as written fails: the two melody tracks of \<open>twoMelodies\<close> come out in the
  opposite of their original order, the longer one first.
\<close>

theorem sortTracks_melody_order_counterexample:
  "map trackRole (analyzeMidiTracks twoMelodies) = [Melody, Melody] \<and>
   map index (analyzeMidiTracks twoMelodies) = [0, 1] \<and>
   map index (sortTracks (analyzeMidiTracks twoMelodies)) = [1, 0]"
  by code_simp

text \<open>
  Claim C6. The classifier keeps exactly the tracks that have a note and are not on
  channel 9, in their original order; it is a total function, so skipping a track raises
  nothing. Every track it returns has the role melody, bass or harmony and holds the
  copies of the notes of the source track with its index. The notes of the arrangement
  built from the classifier's output are the copies of the notes of the kept tracks and
  nothing else.
\<close>

theorem analyzeMidiTracks_excludes:
  "map index (analyzeMidiTracks m)
     = filter (\<lambda>i. keptTrack (tracks m ! i)) [0..<length (tracks m)] \<and>
   (\<forall>t\<in>set (analyzeMidiTracks m).
       trackRole t \<in> {Melody, Bass, Harmony} \<and> index t < length (tracks m) \<and>
       trackNotes t = map copyNote (trackNotes (tracks m ! index t))) \<and>
   mset (rightHand (createPianoArrangement (analyzeMidiTracks m) cfg)) +
   mset (leftHand (createPianoArrangement (analyzeMidiTracks m) cfg))
     = image_mset copyNote (mset (concat (map trackNotes (filter keptTrack (tracks m)))))"
proof (intro conjI ballI)
  show "map index (analyzeMidiTracks m)
     = filter (\<lambda>i. keptTrack (tracks m ! i)) [0..<length (tracks m)]"
    using index_analyzeTracksFrom [of 0 "tracks m" "[]"]
    by (simp add: analyzeMidiTracks_def)
next
  fix t assume "t \<in> set (analyzeMidiTracks m)"
  then have t: "index t < length (tracks m)" "t = analyzeTrack (index t) (tracks m ! index t)"
    using analyzeMidiTracks_member by blast+
  show "index t < length (tracks m)" by fact
  show "trackRole t \<in> {Melody, Bass, Harmony}"
    by (subst t(2)) (rule role_analyzeTrack)
  show "trackNotes t = map copyNote (trackNotes (tracks m ! index t))"
    by (subst t(2)) (rule notes_analyzeTrack)
next
  show "mset (rightHand (createPianoArrangement (analyzeMidiTracks m) cfg)) +
   mset (leftHand (createPianoArrangement (analyzeMidiTracks m) cfg))
     = image_mset copyNote (mset (concat (map trackNotes (filter keptTrack (tracks m)))))"
    by (simp add: mset_arrangement analyzeMidiTracks_notes copyNote_idem
        multiset.map_comp comp_def flip: mset_map)
qed

theorem analyzeMidiTracks_excludes_witness:
  "map keptTrack (tracks exampleMidi) = [True, False, False, True, True] \<and>
   map index (analyzeMidiTracks exampleMidi) = [0, 3, 4] \<and>
   list_all (\<lambda>t. trackRole t \<in> {Melody, Bass, Harmony}) (analyzeMidiTracks exampleMidi) \<and>
   size (mset (rightHand (createPianoArrangement (analyzeMidiTracks exampleMidi) defaultOptions)) +
         mset (leftHand (createPianoArrangement (analyzeMidiTracks exampleMidi) defaultOptions))) = 5"
proof -
  have k: "map keptTrack (tracks exampleMidi) = [True, False, False, True, True]"
    by code_simp
  have f: "filter (\<lambda>i. keptTrack (tracks exampleMidi ! i)) [0..<length (tracks exampleMidi)] = [0, 3, 4]"
    by code_simp
  have n: "concat (map trackNotes (filter keptTrack (tracks exampleMidi)))
     = [mkNote 100 0 1 None, mkNote 40 1 1 (Some (4/5)), mkNote 59 0 2 (Some (1/2)),
        mkNote 60 0 2 (Some 0), mkNote 40 0 4 (Some (1/2))]"
    by code_simp
  from analyzeMidiTracks_excludes [of exampleMidi defaultOptions] k f
  show ?thesis by (simp add: list_all_iff n)
qed

section \<open>Verification of the emitter and the pipeline\<close>

lemma forEach_addNoteLogged:
  "forEachIndexed (addNoteLogged addNote h) i ns (trk, lg)
     = Inr (emitted addNote trk ns, lg @ rejected addNote h i trk ns)"
proof (induction ns arbitrary: i trk lg)
  case Nil
  then show ?case by simp
next
  case (Cons n ns)
  show ?case
  proof (cases "addNote trk (copyNote n)")
    case (Inl e)
    then have "addNoteLogged addNote h i n (trk, lg) = Inr (trk, lg @ [ErrorAddingNote h i n e])"
      by (simp add: addNoteLogged_def tryCatch_def)
    with Inl Cons.IH show ?thesis by simp
  next
    case (Inr trk')
    then have "addNoteLogged addNote h i n (trk, lg) = Inr (trk', lg)"
      by (simp add: addNoteLogged_def tryCatch_def)
    with Inr Cons.IH show ?thesis by simp
  qed
qed

lemma emitted_appendIfValid:
  "emitted (appendIfValid valid err) trk ns = trk @ filter valid (map copyNote ns)"
  by (induction ns arbitrary: trk) (simp_all add: appendIfValid_def)

lemma length_rejected:
  "length (rejected (appendIfValid valid err) h i trk ns)
     = length (filter (\<lambda>n. \<not> valid (copyNote n)) ns)"
  by (induction ns arbitrary: i trk) (simp_all add: appendIfValid_def)

lemma generatePianoMidi_result:
  "\<exists>out lg.
     generatePianoMidi addNote hdr a = Inr (out, lg) \<and>
     map outNotes (outTracks out) = [emitted addNote [] (rightHand a), emitted addNote [] (leftHand a)] \<and>
     lg = rejected addNote RightHand 0 [] (rightHand a) @ rejected addNote LeftHand 0 [] (leftHand a) @
          (if emitted addNote [] (rightHand a) = [] \<and> emitted addNote [] (leftHand a) = []
           then [WarningNoNotes (length (rightHand a)) (length (leftHand a))] else [])"
  by (simp add: generatePianoMidi_def forEach_addNoteLogged Let_def)

lemma generatePianoMidi_valid:
  "\<exists>out lg.
     generatePianoMidi (appendIfValid valid err) hdr a = Inr (out, lg) \<and>
     map outNotes (outTracks out)
       = [filter valid (map copyNote (rightHand a)), filter valid (map copyNote (leftHand a))] \<and>
     length (filter (\<lambda>n. \<not> valid (copyNote n)) (rightHand a @ leftHand a)) \<le> length lg"
  using generatePianoMidi_result [of "appendIfValid valid err" hdr a]
  by (auto simp: emitted_appendIfValid length_rejected)

subsection \<open>Claims about the emitter and the pipeline\<close>

text \<open>
  Claim C7. Whatever the library's \<open>addNote\<close> does, the emitter returns an output and
  never an exception. Each of its two tracks holds what results from offering every note
  of that hand in order, a note on which \<open>addNote\<close> throws being passed over and all
  later notes, of this hand and of the other, still being offered; the log holds one
  entry for every rejected note, with its hand, its position and the exception, followed
  by the warning when both tracks stayed empty.
\<close>

theorem generatePianoMidi_keeps_going:
  "\<exists>out lg.
     generatePianoMidi addNote hdr a = Inr (out, lg) \<and>
     map outNotes (outTracks out) = [emitted addNote [] (rightHand a), emitted addNote [] (leftHand a)] \<and>
     lg = rejected addNote RightHand 0 [] (rightHand a) @ rejected addNote LeftHand 0 [] (leftHand a) @
          (if emitted addNote [] (rightHand a) = [] \<and> emitted addNote [] (leftHand a) = []
           then [WarningNoNotes (length (rightHand a)) (length (leftHand a))] else [])"
proof -
  let ?rightNotes = "emitted addNote [] (rightHand a)"
  let ?lg1 = "rejected addNote RightHand 0 [] (rightHand a)"
  let ?leftNotes = "emitted addNote [] (leftHand a)"
  let ?lg2 = "?lg1 @ rejected addNote LeftHand 0 [] (leftHand a)"
  have right: "forEachIndexed (addNoteLogged addNote RightHand) 0 (rightHand a) ([], [])
                 = Inr (?rightNotes, ?lg1)"
    using forEach_addNoteLogged [of addNote RightHand 0 "rightHand a" "[]" "[]"] by simp
  have left: "forEachIndexed (addNoteLogged addNote LeftHand) 0 (leftHand a) ([], ?lg1)
                = Inr (?leftNotes, ?lg2)"
    by (rule forEach_addNoteLogged)
  show ?thesis
    by (simp add: generatePianoMidi_def Let_def right left)
qed

theorem generatePianoMidi_keeps_going_witness:
  "generatePianoMidi (appendIfValid (\<lambda>n. 0 \<le> time n) TypeError) emptyHeader badNoteArrangement
   = Inr (\<lparr>outHeader = newMidiHeader,
            outTracks = [\<lparr>outName = ''Right Hand'', instrumentNumber = 0,
                          outNotes = [mkNote 72 0 1 (Some 1), mkNote 76 1 1 (Some 1)]\<rparr>,
                         \<lparr>outName = ''Left Hand'', instrumentNumber = 0,
                          outNotes = [mkNote 48 0 2 (Some 1)]\<rparr>]\<rparr>,
          [ErrorAddingNote RightHand 1 (mkNote 74 (- 1) 1 (Some 1)) TypeError])"
proof -
  let ?add = "appendIfValid (\<lambda>n. 0 \<le> time n) TypeError"
  have r: "emitted ?add [] (rightHand badNoteArrangement) = [mkNote 72 0 1 (Some 1), mkNote 76 1 1 (Some 1)]"
    by (simp add: badNoteArrangement_def appendIfValid_def mkNote_def copyNote_def velocityOr64_def)
  have l: "emitted ?add [] (leftHand badNoteArrangement) = [mkNote 48 0 2 (Some 1)]"
    by (simp add: badNoteArrangement_def appendIfValid_def mkNote_def copyNote_def velocityOr64_def)
  have e: "rejected ?add RightHand 0 [] (rightHand badNoteArrangement)
           @ rejected ?add LeftHand 0 [] (leftHand badNoteArrangement)
         = [ErrorAddingNote RightHand 1 (mkNote 74 (- 1) 1 (Some 1)) TypeError]"
    by (simp add: badNoteArrangement_def appendIfValid_def mkNote_def copyNote_def velocityOr64_def)
  have h: "generatePianoMidi ?add emptyHeader badNoteArrangement = Inr (out, lg) \<Longrightarrow> outHeader out = newMidiHeader" for out lg
    by (auto simp: generatePianoMidi_def Let_def emptyHeader_def newMidiHeader_def forEach_addNoteLogged)
  have n: "generatePianoMidi ?add emptyHeader badNoteArrangement = Inr (out, lg) \<Longrightarrow>
           map outName (outTracks out) = [''Right Hand'', ''Left Hand''] \<and>
           map instrumentNumber (outTracks out) = [0, 0]" for out lg
    by (auto simp: generatePianoMidi_def Let_def forEach_addNoteLogged)
  from generatePianoMidi_keeps_going [of ?add emptyHeader badNoteArrangement]
  obtain out lg where o: "generatePianoMidi ?add emptyHeader badNoteArrangement = Inr (out, lg)"
    "map outNotes (outTracks out) = [[mkNote 72 0 1 (Some 1), mkNote 76 1 1 (Some 1)], [mkNote 48 0 2 (Some 1)]]"
    "lg = [ErrorAddingNote RightHand 1 (mkNote 74 (- 1) 1 (Some 1)) TypeError]"
    unfolding r l using e by auto
  from o(2) n [OF o(1)] h [OF o(1)] have "out = \<lparr>outHeader = newMidiHeader,
            outTracks = [\<lparr>outName = ''Right Hand'', instrumentNumber = 0,
                          outNotes = [mkNote 72 0 1 (Some 1), mkNote 76 1 1 (Some 1)]\<rparr>,
                         \<lparr>outName = ''Left Hand'', instrumentNumber = 0,
                          outNotes = [mkNote 48 0 2 (Some 1)]\<rparr>]\<rparr>"
    by (cases out) (auto simp: Cons_eq_map_conv)
  with o show ?thesis by simp
qed

text \<open>
  Claim C2. When reading and writing succeed, the pipeline writes the output that the
  emitter builds from the initial distribution \<open>createPianoArrangement\<close> of the classified
  tracks under the merged options, and its statistics count the notes of that
  distribution; no step of the pipeline is the balancer. For the chord of three notes
  under a right-hand ceiling of two, the pipeline emits all three notes in the right
  hand, while the balancer, had it been run on that distribution, would have moved the
  lowest note to the left hand.
\<close>

theorem optimizeMidiForPiano_unbalanced:
  "(\<exists>out lg.
      optimizeMidiForPiano addNote (Inr m) (\<lambda>out. None) opts
        = Inr (out, lg,
               \<lparr>originalTracks = length (tracks m),
                rightHandNotes = length (rightHand (createPianoArrangement (analyzeMidiTracks m) (mergeOptions opts))),
                leftHandNotes = length (leftHand (createPianoArrangement (analyzeMidiTracks m) (mergeOptions opts))),
                resultDuration = midiDuration m\<rparr>) \<and>
      generatePianoMidi addNote (header m) (createPianoArrangement (analyzeMidiTracks m) (mergeOptions opts))
        = Inr (out, lg) \<and>
      map outNotes (outTracks out)
        = [emitted addNote [] (rightHand (createPianoArrangement (analyzeMidiTracks m) (mergeOptions opts))),
           emitted addNote [] (leftHand (createPianoArrangement (analyzeMidiTracks m) (mergeOptions opts)))]) \<and>
   (case optimizeMidiForPiano appendNote (Inr chordMidi) (\<lambda>out. None) chordOptions of
      Inl e \<Rightarrow> [] | Inr (out, lg, stats) \<Rightarrow> map outNotes (outTracks out))
     = [[mkNote 70 0 1 (Some 1), mkNote 72 0 1 (Some 1), mkNote 75 0 1 (Some 1)], []] \<and>
   balancedArrangement (mergeOptions chordOptions)
       (createPianoArrangement (analyzeMidiTracks chordMidi) (mergeOptions chordOptions))
     = Some (Inr \<lparr>rightHand = [mkNote 72 0 1 (Some 1), mkNote 75 0 1 (Some 1)],
                  leftHand = [mkNote 70 0 1 (Some 1)]\<rparr>)"
proof (intro conjI)
  let ?A = "createPianoArrangement (analyzeMidiTracks m) (mergeOptions opts)"
  from generatePianoMidi_result [of addNote "header m" ?A] obtain out lg where
    g: "generatePianoMidi addNote (header m) ?A = Inr (out, lg)"
       "map outNotes (outTracks out) = [emitted addNote [] (rightHand ?A), emitted addNote [] (leftHand ?A)]"
    by (elim exE conjE)
  then have "optimizeMidiForPiano addNote (Inr m) (\<lambda>out. None) opts
        = Inr (out, lg, \<lparr>originalTracks = length (tracks m),
                rightHandNotes = length (rightHand ?A), leftHandNotes = length (leftHand ?A),
                resultDuration = midiDuration m\<rparr>)"
    by (simp add: optimizeMidiForPiano_def Let_def)
  with g show "\<exists>out lg.
      optimizeMidiForPiano addNote (Inr m) (\<lambda>out. None) opts
        = Inr (out, lg,
               \<lparr>originalTracks = length (tracks m),
                rightHandNotes = length (rightHand ?A), leftHandNotes = length (leftHand ?A),
                resultDuration = midiDuration m\<rparr>) \<and>
      generatePianoMidi addNote (header m) ?A = Inr (out, lg) \<and>
      map outNotes (outTracks out)
        = [emitted addNote [] (rightHand ?A), emitted addNote [] (leftHand ?A)]"
    by (intro exI conjI)
  show "(case optimizeMidiForPiano appendNote (Inr chordMidi) (\<lambda>out. None) chordOptions of
      Inl e \<Rightarrow> [] | Inr (out, lg, stats) \<Rightarrow> map outNotes (outTracks out))
     = [[mkNote 70 0 1 (Some 1), mkNote 72 0 1 (Some 1), mkNote 75 0 1 (Some 1)], []]"
    by code_simp
  show "balancedArrangement (mergeOptions chordOptions)
       (createPianoArrangement (analyzeMidiTracks chordMidi) (mergeOptions chordOptions))
     = Some (Inr \<lparr>rightHand = [mkNote 72 0 1 (Some 1), mkNote 75 0 1 (Some 1)],
                  leftHand = [mkNote 70 0 1 (Some 1)]\<rparr>)"
    by code_simp
qed

section \<open>Verification of the balancer\<close>

subsection \<open>The store and its operations\<close>

lemma newObj_simps [simp]:
  "fst (newObj n s) = length (objs s)"
  "objs (snd (newObj n s)) = objs s @ [n]"
  "arrs (snd (newObj n s)) = arrs s"
  by (simp_all add: newObj_def)

lemma newArr_simps [simp]:
  "fst (newArr rs s) = length (arrs s)"
  "objs (snd (newArr rs s)) = objs s"
  "arrs (snd (newArr rs s)) = arrs s @ [rs]"
  by (simp_all add: newArr_def)

lemma push_simps [simp]:
  "objs (push a r s) = objs s"
  "arrs (push a r s) = (arrs s)[a := arrs s ! a @ [r]]"
  by (simp_all add: push_def arrayAt_def)

lemma splice1_objs [simp]: "objs (splice1 a i s) = objs s"
  by (simp add: splice1_def Let_def)

lemma splice1_length [simp]: "length (arrs (splice1 a i s)) = length (arrs s)"
  by (simp add: splice1_def Let_def)

lemma splice1_other: "b \<noteq> a \<Longrightarrow> arrs (splice1 a i s) ! b = arrs s ! b"
  by (simp add: splice1_def Let_def)

lemma indexOf_bounds: "- 1 \<le> indexOf xs r \<and> indexOf xs r < int (length xs)"
  by (induction xs) (auto simp: Let_def)

lemma indexOf_member:
  "r \<in> set xs \<Longrightarrow> 0 \<le> indexOf xs r \<and> take (nat (indexOf xs r)) xs @ drop (Suc (nat (indexOf xs r))) xs = remove1 r xs"
proof (induction xs)
  case Nil
  then show ?case by simp
next
  case (Cons x xs)
  show ?case
  proof (cases "x = r")
    case True
    then show ?thesis by simp
  next
    case False
    with Cons have ih: "0 \<le> indexOf xs r"
      "take (nat (indexOf xs r)) xs @ drop (Suc (nat (indexOf xs r))) xs = remove1 r xs"
      by auto
    have "nat (indexOf xs r + 1) = Suc (nat (indexOf xs r))" using ih(1) by simp
    with False ih show ?thesis by (simp add: Let_def)
  qed
qed

lemma splice1_indexOf:
  assumes "a < length (arrs s)" "r \<in> set (arrs s ! a)"
  shows "arrs (splice1 a (indexOf (arrs s ! a) r) s) = (arrs s)[a := remove1 r (arrs s ! a)]"
proof -
  let ?xs = "arrs s ! a"
  from indexOf_member [OF assms(2)] have i: "0 \<le> indexOf ?xs r"
    "take (nat (indexOf ?xs r)) ?xs @ drop (Suc (nat (indexOf ?xs r))) ?xs = remove1 r ?xs"
    by auto
  have "indexOf ?xs r < int (length ?xs)" using indexOf_bounds by blast
  then have "nat (min (indexOf ?xs r) (int (length ?xs))) = nat (indexOf ?xs r)" by simp
  with i show ?thesis by (simp add: splice1_def Let_def arrayAt_def)
qed

lemma foldl_pick_member: "foldl (\<lambda>a b. if P a b then a else b) x xs \<in> set (x # xs)"
  by (induction xs arbitrary: x) auto

lemma reduceNotes_cases:
  "(xs = [] \<and> reduceNotes keep s xs = Inl TypeError) \<or>
   (\<exists>r. r \<in> set xs \<and> reduceNotes keep s xs = Inr r)"
  using foldl_pick_member [of _ "hd xs" "tl xs"]
  by (cases xs) (auto simp: reduceNotes_def)

lemma moveNote_empty: "arrs s ! src = [] \<Longrightarrow> moveNote keep src dst s = Inl TypeError"
  by (simp add: moveNote_def reduceNotes_def arrayAt_def)

lemma moveNote_step:
  assumes "src \<noteq> dst" "src < length (arrs s)" "dst < length (arrs s)" "arrs s ! src \<noteq> []"
  shows "\<exists>r. reduceNotes keep s (arrs s ! src) = Inr r \<and> r \<in> set (arrs s ! src) \<and>
           moveNote keep src dst s
             = Inr (s\<lparr>arrs := (arrs s)[src := remove1 r (arrs s ! src), dst := arrs s ! dst @ [r]]\<rparr>)"
proof -
  from reduceNotes_cases [of "arrs s ! src" keep s] assms(4)
  obtain r where r: "r \<in> set (arrs s ! src)" "reduceNotes keep s (arrs s ! src) = Inr r"
    by auto
  have "push dst r (splice1 src (indexOf (arrs s ! src) r) s)
      = s\<lparr>arrs := (arrs s)[src := remove1 r (arrs s ! src), dst := arrs s ! dst @ [r]]\<rparr>"
    using assms(1-3) r(1)
    by (simp add: push_def arrayAt_def splice1_indexOf)
  with r show ?thesis by (auto simp: moveNote_def arrayAt_def)
qed

subsection \<open>The rebalancing loop terminates\<close>

lemma update_twice:
  "src \<noteq> dst \<Longrightarrow> (xs[src := a, dst := b])[src := c, dst := d] = xs[src := c, dst := d]"
  by (metis list_update_overwrite list_update_swap)

lemma moveWhileOver_total:
  assumes "src \<noteq> dst" "src < length (arrs s)" "dst < length (arrs s)"
  shows "\<exists>res xs ys.
           moveWhileOver keep limit src dst s = Some (res, s\<lparr>arrs := (arrs s)[src := xs, dst := ys]\<rparr>) \<and>
           length xs + length ys = length (arrs s ! src) + length (arrs s ! dst) \<and>
           (res = Inr () \<longrightarrow> int (length xs) \<le> limit) \<and>
           (res \<noteq> Inr () \<longrightarrow> xs = [] \<and> limit < 0) \<and>
           (0 \<le> limit \<longrightarrow> length xs = min (length (arrs s ! src)) (nat limit))"
  using assms
proof (induction "length (arrs s ! src)" arbitrary: s rule: less_induct)
  case less
  show ?case
  proof (cases "int (length (arrs s ! src)) > limit")
    case False
    then have "moveWhileOver keep limit src dst s = Some (Inr (), s)"
      by (subst moveWhileOver.simps) (simp add: arrayAt_def)
    moreover have "s = s\<lparr>arrs := (arrs s)[src := arrs s ! src, dst := arrs s ! dst]\<rparr>"
      by simp
    moreover have "0 \<le> limit \<longrightarrow> length (arrs s ! src) = min (length (arrs s ! src)) (nat limit)"
      using False by auto
    moreover have "int (length (arrs s ! src)) \<le> limit" using False by simp
    ultimately show ?thesis
      by (intro exI [of _ "Inr ()"] exI [of _ "arrs s ! src"] exI [of _ "arrs s ! dst"]) simp
  next
    case over: True
    show ?thesis
    proof (cases "arrs s ! src = []")
      case True
      then have "moveWhileOver keep limit src dst s = Some (Inl TypeError, s)"
        using over by (subst moveWhileOver.simps) (simp add: arrayAt_def moveNote_empty)
      moreover have "s = s\<lparr>arrs := (arrs s)[src := [], dst := arrs s ! dst]\<rparr>"
        using list_update_id [of "arrs s" src] True by simp
      ultimately show ?thesis using True over
        by (intro exI [of _ "Inl TypeError"] exI [of _ "[]"] exI [of _ "arrs s ! dst"]) auto
    next
      case False
      from moveNote_step [OF less.prems False, of keep] obtain r where
        r: "r \<in> set (arrs s ! src)" and
        mv: "moveNote keep src dst s
             = Inr (s\<lparr>arrs := (arrs s)[src := remove1 r (arrs s ! src), dst := arrs s ! dst @ [r]]\<rparr>)"
        by blast
      let ?s1 = "s\<lparr>arrs := (arrs s)[src := remove1 r (arrs s ! src), dst := arrs s ! dst @ [r]]\<rparr>"
      have src1: "arrs ?s1 ! src = remove1 r (arrs s ! src)"
        and dst1: "arrs ?s1 ! dst = arrs s ! dst @ [r]"
        using less.prems by simp_all
      have len1: "Suc (length (arrs ?s1 ! src)) = length (arrs s ! src)"
        using r src1 by (simp add: length_remove1) (metis False Suc_pred length_greater_0_conv)
      then have "length (arrs ?s1 ! src) < length (arrs s ! src)" by simp
      from less.hyps [OF this] less.prems obtain res xs ys where
        ih: "moveWhileOver keep limit src dst ?s1
               = Some (res, ?s1\<lparr>arrs := (arrs ?s1)[src := xs, dst := ys]\<rparr>)"
          "length xs + length ys = length (arrs ?s1 ! src) + length (arrs ?s1 ! dst)"
          "res = Inr () \<longrightarrow> int (length xs) \<le> limit"
          "res \<noteq> Inr () \<longrightarrow> xs = [] \<and> limit < 0"
          "0 \<le> limit \<longrightarrow> length xs = min (length (arrs ?s1 ! src)) (nat limit)"
        by (auto simp del: nth_list_update_eq nth_list_update_neq)
      have fin: "?s1\<lparr>arrs := (arrs ?s1)[src := xs, dst := ys]\<rparr> = s\<lparr>arrs := (arrs s)[src := xs, dst := ys]\<rparr>"
        using less.prems(1) by (simp add: update_twice)
      have "moveWhileOver keep limit src dst s = moveWhileOver keep limit src dst ?s1"
        using over mv by (subst moveWhileOver.simps) (simp add: arrayAt_def)
      with ih(1) fin have 1: "moveWhileOver keep limit src dst s
            = Some (res, s\<lparr>arrs := (arrs s)[src := xs, dst := ys]\<rparr>)"
        by simp
      have 2: "length xs + length ys = length (arrs s ! src) + length (arrs s ! dst)"
        using ih(2) len1 dst1 by simp
      have 3: "0 \<le> limit \<longrightarrow> length xs = min (length (arrs s ! src)) (nat limit)"
        using ih(5) len1 over by auto
      from 1 2 3 ih(3,4) show ?thesis by blast
    qed
  qed
qed

subsection \<open>Allocation leaves the store beneath it alone\<close>

lemma evolves_refl: "evolves W s s"
  by (simp add: evolves_def)

lemma evolves_trans:
  assumes "evolves W1 s s'" "evolves W2 s' s''"
  shows "evolves (W1 \<union> W2) s s''"
proof -
  have le: "length (objs s) \<le> length (objs s')"
    and 1: "take (length (objs s)) (objs s') = objs s"
    and 2: "take (length (objs s')) (objs s'') = objs s'"
    using assms by (simp_all add: evolves_def)
  have "take (length (objs s)) (take (length (objs s')) (objs s'')) = take (length (objs s)) (objs s'')"
    using le by (simp add: min_def)
  with 1 2 have "take (length (objs s)) (objs s'') = objs s"
    by simp
  then show ?thesis using assms by (auto simp: evolves_def)
qed

lemma evolves_mono: "evolves W s s' \<Longrightarrow> W \<subseteq> W' \<Longrightarrow> evolves W' s s'"
  by (auto simp: evolves_def)

lemma evolves_newObj: "evolves {} s (snd (newObj n s))"
  by (simp add: evolves_def)

lemma evolves_newArr: "evolves {} s (snd (newArr rs s))"
  by (simp add: evolves_def nth_append)

lemma evolves_update: "evolves {a} s (s\<lparr>arrs := (arrs s)[a := xs]\<rparr>)"
  by (simp add: evolves_def)

lemma evolves_update2: "evolves {a, b} s (s\<lparr>arrs := (arrs s)[a := xs, b := ys]\<rparr>)"
  by (simp add: evolves_def)

lemma copyAll_evolves:
  "evolves {} s (snd (copyAll rs s)) \<and> arrs (snd (copyAll rs s)) = arrs s"
proof (induction rs arbitrary: s)
  case Nil
  then show ?case by (simp add: evolves_refl)
next
  case (Cons r rs)
  let ?s1 = "snd (newObj (noteAt s r) s)"
  have "snd (copyAll (r # rs) s) = snd (copyAll rs ?s1)"
    by (simp add: split_beta Let_def)
  moreover have "evolves {} s ?s1" by (rule evolves_newObj)
  ultimately show ?case
    using Cons [of ?s1] evolves_trans [of "{}" s ?s1 "{}"] by simp
qed

lemma mapCopy_evolves:
  "evolves {} s (snd (mapCopy a s)) \<and> fst (mapCopy a s) = length (arrs s) \<and>
   length (arrs (snd (mapCopy a s))) = Suc (length (arrs s))"
proof -
  let ?s1 = "snd (copyAll (arrayAt s a) s)"
  have "snd (mapCopy a s) = snd (newArr (fst (copyAll (arrayAt s a) s)) ?s1)"
    "fst (mapCopy a s) = length (arrs ?s1)"
    by (simp_all add: mapCopy_def split_beta)
  then show ?thesis
    using copyAll_evolves [of s "arrayAt s a"] evolves_newArr [of ?s1]
      evolves_trans [of "{}" s ?s1 "{}"]
    by simp
qed

lemma filterActive_simps [simp]:
  "fst (filterActive a t0 t1 s) = length (arrs s)"
  "objs (snd (filterActive a t0 t1 s)) = objs s"
  "arrs (snd (filterActive a t0 t1 s))
     = arrs s @ [filter (\<lambda>r. covers (noteAt s r) t0 t1) (arrayAt s a)]"
  by (simp_all add: filterActive_def)

lemma evolves_filterActive: "evolves {} s (snd (filterActive a t0 t1 s))"
  by (simp add: evolves_def nth_append)

lemma buildSlices_evolves: "evolves {} s (snd (buildSlices a ts s))"
proof (induction a ts s rule: buildSlices.induct)
  case (1 a t0 t1 ts s)
  let ?s1 = "snd (filterActive a t0 t1 s)"
  have "snd (buildSlices a (t0 # t1 # ts) s) = snd (buildSlices a (t1 # ts) ?s1)"
    by (simp add: split_beta)
  moreover have "evolves {} ?s1 (snd (buildSlices a (t1 # ts) ?s1))"
    by (rule 1 [OF refl, of "fst (filterActive a t0 t1 s)"]) (simp del: filterActive_simps)
  ultimately show ?case
    using evolves_trans [OF evolves_filterActive, of "{}" a t0 t1 s]
    by (simp del: buildSlices.simps)
qed (simp_all add: evolves_refl)

lemma createTimeSlices_evolves: "evolves {} s (snd (createTimeSlices a s))"
  by (simp add: createTimeSlices_def buildSlices_evolves)

subsection \<open>Merging and the two loops of a slice\<close>

lemma evolves_restrict:
  assumes "evolves W s s'" "\<forall>a\<in>W. a \<in> W' \<or> length (arrs s) \<le> a"
  shows "evolves W' s s'"
  using assms by (fastforce simp: evolves_def)


lemma appended_refl: "appended tgt s s"
  by (simp add: appended_def evolves_refl)

lemma appended_trans:
  assumes "appended tgt s s'" "appended tgt s' s''"
  shows "appended tgt s s''"
proof -
  from assms obtain n1 n2 where
    n1: "arrs s' ! tgt = arrs s ! tgt @ n1" "distinct n1" "set n1 \<subseteq> {length (objs s)..<length (objs s')}" and
    n2: "arrs s'' ! tgt = arrs s' ! tgt @ n2" "distinct n2" "set n2 \<subseteq> {length (objs s')..<length (objs s'')}"
    by (auto simp: appended_def)
  have le: "length (objs s) \<le> length (objs s')" "length (objs s') \<le> length (objs s'')"
    using assms by (simp_all add: appended_def evolves_def)
  have "arrs s'' ! tgt = arrs s ! tgt @ (n1 @ n2)" using n1 n2 by simp
  moreover have "distinct (n1 @ n2)" using n1 n2 by fastforce
  moreover have "set (n1 @ n2) \<subseteq> {length (objs s)..<length (objs s'')}"
    using n1(3) n2(3) le by fastforce
  moreover have "evolves {tgt} s s''"
    using evolves_trans [of "{tgt}" s s' "{tgt}" s''] assms by (simp add: appended_def)
  ultimately show ?thesis using assms unfolding appended_def by metis
qed

lemma mergeNote_appended:
  assumes "tgt < length (arrs s)"
  shows "appended tgt s (mergeNote tgt s r)"
proof (cases "list_ex (\<lambda>n. time (noteAt s n) = time (noteAt s r) \<and> midi (noteAt s n) = midi (noteAt s r))
           (arrayAt s tgt)")
  case True
  then show ?thesis by (simp add: mergeNote_def appended_refl)
next
  case False
  then have eq: "mergeNote tgt s r
     = s\<lparr>objs := objs s @ [noteAt s r], arrs := (arrs s)[tgt := arrs s ! tgt @ [length (objs s)]]\<rparr>"
    by (simp add: mergeNote_def newObj_def push_def arrayAt_def)
  show ?thesis
    unfolding eq appended_def using assms
    by (auto simp: evolves_def intro!: exI [of _ "[length (objs s)]"])
qed

lemma foldl_mergeNote_appended:
  "tgt < length (arrs s) \<Longrightarrow> appended tgt s (foldl (mergeNote tgt) s rs)"
proof (induction rs arbitrary: s)
  case Nil
  then show ?case by (simp add: appended_refl)
next
  case (Cons r rs)
  have 1: "appended tgt s (mergeNote tgt s r)" using Cons.prems by (rule mergeNote_appended)
  then have "tgt < length (arrs (mergeNote tgt s r))" using Cons.prems by (simp add: appended_def)
  from Cons.IH [OF this] 1 show ?case
    using appended_trans by fastforce
qed

lemma mergeInto_appended: "tgt < length (arrs s) \<Longrightarrow> appended tgt s (mergeInto tgt src s)"
  by (simp add: mergeInto_def foldl_mergeNote_appended)

lemma update_swap2:
  "a \<noteq> b \<Longrightarrow> (xs[a := x, b := y])[b := y', a := x'] = xs[a := x', b := y']"
  by (metis list_update_overwrite list_update_swap)

lemma rebalance_total:
  assumes "sr \<noteq> sl" "sr < length (arrs s)" "sl < length (arrs s)"
  shows "\<exists>res xs ys.
           rebalance cfg sr sl s = Some (res, s\<lparr>arrs := (arrs s)[sr := xs, sl := ys]\<rparr>) \<and>
           length xs + length ys = length (arrs s ! sr) + length (arrs s ! sl) \<and>
           (res = Inr () \<longrightarrow> int (length ys) \<le> maxLeftHandNotes cfg) \<and>
           (res \<noteq> Inr () \<longrightarrow> maxRightHandNotes cfg < 0 \<or> maxLeftHandNotes cfg < 0) \<and>
           (0 \<le> maxLeftHandNotes cfg \<longrightarrow> res \<noteq> Inr () \<longrightarrow> maxRightHandNotes cfg < 0)"
proof -
  from moveWhileOver_total [OF assms, of lowerPitch "maxRightHandNotes cfg"]
  obtain res1 xs1 ys1 where
    l1: "moveWhileOver lowerPitch (maxRightHandNotes cfg) sr sl s
           = Some (res1, s\<lparr>arrs := (arrs s)[sr := xs1, sl := ys1]\<rparr>)"
      "length xs1 + length ys1 = length (arrs s ! sr) + length (arrs s ! sl)"
      "res1 \<noteq> Inr () \<longrightarrow> xs1 = [] \<and> maxRightHandNotes cfg < 0"
    by blast
  let ?s1 = "s\<lparr>arrs := (arrs s)[sr := xs1, sl := ys1]\<rparr>"
  show ?thesis
  proof (cases "res1 = Inr ()")
    case False
    then obtain e where "res1 = Inl e" by (cases res1) auto
    with l1 False have "rebalance cfg sr sl s = Some (res1, ?s1)"
      by (simp add: rebalance_def)
    with l1 False show ?thesis by blast
  next
    case True
    have pre: "sl \<noteq> sr" "sl < length (arrs ?s1)" "sr < length (arrs ?s1)"
      using assms by simp_all
    from moveWhileOver_total [OF pre, of higherPitch "maxLeftHandNotes cfg"]
    obtain res2 ys2 xs2 where
      l2: "moveWhileOver higherPitch (maxLeftHandNotes cfg) sl sr ?s1
             = Some (res2, ?s1\<lparr>arrs := (arrs ?s1)[sl := ys2, sr := xs2]\<rparr>)"
        "length ys2 + length xs2 = length (arrs ?s1 ! sl) + length (arrs ?s1 ! sr)"
        "res2 = Inr () \<longrightarrow> int (length ys2) \<le> maxLeftHandNotes cfg"
        "res2 \<noteq> Inr () \<longrightarrow> ys2 = [] \<and> maxLeftHandNotes cfg < 0"
      by blast
    have fin: "?s1\<lparr>arrs := (arrs ?s1)[sl := ys2, sr := xs2]\<rparr> = s\<lparr>arrs := (arrs s)[sr := xs2, sl := ys2]\<rparr>"
      using assms(1) update_swap2 [of sr sl "arrs s" xs1 ys1 ys2 xs2] by simp
    have "rebalance cfg sr sl s = Some (res2, s\<lparr>arrs := (arrs s)[sr := xs2, sl := ys2]\<rparr>)"
      using l1(1) True l2(1) fin by (simp add: rebalance_def)
    moreover have "length xs2 + length ys2 = length (arrs s ! sr) + length (arrs s ! sl)"
      using l2(2) l1(2) assms by simp
    ultimately show ?thesis using l2(3,4) by force
  qed
qed

subsection \<open>One slice and the loop over the slices\<close>

lemma evolves_nth: "evolves W s s' \<Longrightarrow> a < length (arrs s) \<Longrightarrow> a \<notin> W \<Longrightarrow> arrs s' ! a = arrs s ! a"
  by (simp add: evolves_def)

lemma evolves_lengths:
  "evolves W s s' \<Longrightarrow> length (objs s) \<le> length (objs s') \<and> length (arrs s) \<le> length (arrs s')"
  by (simp add: evolves_def)

lemma sliceEffect_refl: "sliceEffect oR oL s s"
  by (simp add: sliceEffect_def evolves_refl)

lemma sliceEffect_trans:
  assumes "sliceEffect oR oL s s'" "sliceEffect oR oL s' s''"
  shows "sliceEffect oR oL s s''"
proof -
  have le: "length (objs s) \<le> length (objs s')" "length (objs s') \<le> length (objs s'')"
    using assms evolves_lengths by (auto simp: sliceEffect_def)
  have ev: "evolves {oR, oL} s s''"
    using evolves_trans [of "{oR, oL}" s s' "{oR, oL}" s''] assms by (simp add: sliceEffect_def)
  have ext: "\<exists>n. arrs s'' ! a = arrs s ! a @ n \<and> distinct n \<and> set n \<subseteq> {length (objs s)..<length (objs s'')}"
    if 1: "arrs s' ! a = arrs s ! a @ n1" "distinct n1" "set n1 \<subseteq> {length (objs s)..<length (objs s')}"
    and 2: "arrs s'' ! a = arrs s' ! a @ n2" "distinct n2" "set n2 \<subseteq> {length (objs s')..<length (objs s'')}"
    for a n1 n2
  proof (intro exI [of _ "n1 @ n2"] conjI)
    show "arrs s'' ! a = arrs s ! a @ n1 @ n2" using 1 2 by simp
    show "distinct (n1 @ n2)" using 1 2 by fastforce
    show "set (n1 @ n2) \<subseteq> {length (objs s)..<length (objs s'')}" using 1(3) 2(3) le by fastforce
  qed
  from assms show ?thesis
    unfolding sliceEffect_def using ev ext by metis
qed

lemma processSlice_total:
  assumes "oR < length (arrs s)" "oL < length (arrs s)" "oR \<noteq> oL"
  shows "\<exists>res s'. processSlice cfg rc lc oR oL slice s = Some (res, s') \<and> sliceEffect oR oL s s' \<and>
           (res \<noteq> Inr () \<longrightarrow> maxRightHandNotes cfg < 0 \<or> maxLeftHandNotes cfg < 0)"
proof -
  let ?t0 = "startTime slice" and ?t1 = "endTime slice"
  let ?sr = "length (arrs s)" and ?sl = "Suc (length (arrs s))"
  let ?s1 = "snd (filterActive rc ?t0 ?t1 s)"
  let ?s2 = "snd (filterActive lc ?t0 ?t1 ?s1)"
  have len2: "length (arrs ?s2) = Suc (Suc (length (arrs s)))" by simp
  have e1: "evolves {} s ?s1" by (rule evolves_filterActive)
  have e2: "evolves {} ?s1 ?s2" by (rule evolves_filterActive)
  have ev02: "evolves {} s ?s2"
    using evolves_trans [OF e1 e2] by simp
  have pre: "?sr \<noteq> ?sl" "?sr < length (arrs ?s2)" "?sl < length (arrs ?s2)"
    by simp_all
  from rebalance_total [OF pre, of cfg] obtain res xs ys where
    rb: "rebalance cfg ?sr ?sl ?s2 = Some (res, ?s2\<lparr>arrs := (arrs ?s2)[?sr := xs, ?sl := ys]\<rparr>)"
    and neg: "res \<noteq> Inr () \<longrightarrow> maxRightHandNotes cfg < 0 \<or> maxLeftHandNotes cfg < 0"
    by blast
  let ?s3 = "?s2\<lparr>arrs := (arrs ?s2)[?sr := xs, ?sl := ys]\<rparr>"
  have ev23: "evolves {?sr, ?sl} ?s2 ?s3" by (rule evolves_update2)
  have ev03: "evolves {oR, oL} s ?s3"
    using evolves_trans [OF ev02 ev23] by (rule evolves_restrict) simp
  have objs3: "objs ?s3 = objs s" by simp
  have keepR: "arrs ?s3 ! oR = arrs s ! oR" and keepL: "arrs ?s3 ! oL = arrs s ! oL"
    using assms by (simp_all add: nth_append)
  have ps: "processSlice cfg rc lc oR oL slice s
      = (case rebalance cfg ?sr ?sl ?s2 of None \<Rightarrow> None
         | Some (Inl e, s3) \<Rightarrow> Some (Inl e, s3)
         | Some (Inr u, s3) \<Rightarrow> Some (Inr (), mergeInto oL ?sl (mergeInto oR ?sr s3)))"
  proof -
    have f1: "fst (filterActive rc ?t0 ?t1 s) = ?sr" by simp
    have f2: "fst (filterActive lc ?t0 ?t1 ?s1) = ?sl" by simp
    show ?thesis
      by (simp only: processSlice_def split_beta Let_def f1 f2)
  qed
  show ?thesis
  proof (cases res)
    case (Inl e)
    then have "processSlice cfg rc lc oR oL slice s = Some (res, ?s3)"
      unfolding ps rb by simp
    moreover have "sliceEffect oR oL s ?s3"
      unfolding sliceEffect_def using ev03 keepR keepL objs3 by simp
    ultimately show ?thesis using neg by blast
  next
    case (Inr u)
    let ?s4 = "mergeInto oR ?sr ?s3"
    let ?s5 = "mergeInto oL ?sl ?s4"
    have r: "processSlice cfg rc lc oR oL slice s = Some (Inr (), ?s5)"
      unfolding ps rb using Inr by simp
    have a34: "appended oR ?s3 ?s4"
      using assms by (intro mergeInto_appended) simp
    then have len4: "length (arrs ?s4) = length (arrs ?s3)" by (simp add: appended_def)
    have a45: "appended oL ?s4 ?s5"
      using assms len4 by (intro mergeInto_appended) simp
    have ev34: "evolves {oR} ?s3 ?s4" and ev45: "evolves {oL} ?s4 ?s5"
      using a34 a45 by (simp_all add: appended_def)
    have ev05: "evolves {oR, oL} s ?s5"
      using evolves_trans [OF evolves_trans [OF ev03 ev34] ev45]
      by (rule evolves_mono) auto
    have le: "length (objs s) \<le> length (objs ?s4)" "length (objs ?s4) \<le> length (objs ?s5)"
      using evolves_lengths [OF ev34] evolves_lengths [OF ev45] by simp_all
    from a34 obtain nr where nr: "arrs ?s4 ! oR = arrs ?s3 ! oR @ nr" "distinct nr"
      "set nr \<subseteq> {length (objs ?s3)..<length (objs ?s4)}"
      unfolding appended_def by blast
    from a45 obtain nl where nl: "arrs ?s5 ! oL = arrs ?s4 ! oL @ nl" "distinct nl"
      "set nl \<subseteq> {length (objs ?s4)..<length (objs ?s5)}"
      unfolding appended_def by blast
    have oR5: "arrs ?s5 ! oR = arrs ?s4 ! oR"
      using evolves_nth [OF ev45, of oR] assms len4 by simp
    have oL4: "arrs ?s4 ! oL = arrs ?s3 ! oL"
      using evolves_nth [OF ev34, of oL] assms by simp
    have R: "arrs ?s5 ! oR = arrs s ! oR @ nr" "set nr \<subseteq> {length (objs s)..<length (objs ?s5)}"
      using oR5 nr keepR le objs3 by auto
    have L: "arrs ?s5 ! oL = arrs s ! oL @ nl" "set nl \<subseteq> {length (objs s)..<length (objs ?s5)}"
      using oL4 nl keepL le by auto
    have "sliceEffect oR oL s ?s5"
      unfolding sliceEffect_def using ev05 R L nr(2) nl(2) by blast
    with r show ?thesis by blast
  qed
qed

lemma forEachSlice_total:
  assumes "oR < length (arrs s)" "oL < length (arrs s)" "oR \<noteq> oL"
  shows "\<exists>res s'. forEachSlice (processSlice cfg rc lc oR oL) slices s = Some (res, s') \<and>
           sliceEffect oR oL s s' \<and>
           (res \<noteq> Inr () \<longrightarrow> maxRightHandNotes cfg < 0 \<or> maxLeftHandNotes cfg < 0)"
  using assms
proof (induction slices arbitrary: s)
  case Nil
  then show ?case by (simp add: sliceEffect_refl)
next
  case (Cons slice slices)
  from processSlice_total [OF Cons.prems, of cfg rc lc slice] obtain res s1 where
    p: "processSlice cfg rc lc oR oL slice s = Some (res, s1)" "sliceEffect oR oL s s1"
       "res \<noteq> Inr () \<longrightarrow> maxRightHandNotes cfg < 0 \<or> maxLeftHandNotes cfg < 0"
    by blast
  show ?case
  proof (cases res)
    case (Inl e)
    with p show ?thesis by auto
  next
    case (Inr u)
    have "length (arrs s) \<le> length (arrs s1)"
      using p(2) evolves_lengths by (auto simp: sliceEffect_def)
    then have "oR < length (arrs s1)" "oL < length (arrs s1)" using Cons.prems by simp_all
    from Cons.IH [OF this Cons.prems(3)] obtain res' s' where
      q: "forEachSlice (processSlice cfg rc lc oR oL) slices s1 = Some (res', s')"
         "sliceEffect oR oL s1 s'"
         "res' \<noteq> Inr () \<longrightarrow> maxRightHandNotes cfg < 0 \<or> maxLeftHandNotes cfg < 0"
      by blast
    have "forEachSlice (processSlice cfg rc lc oR oL) (slice # slices) s = Some (res', s')"
      using p(1) q(1) Inr by simp
    moreover have "sliceEffect oR oL s s'" using p(2) q(2) by (rule sliceEffect_trans)
    ultimately show ?thesis using q(3) by blast
  qed
qed

subsection \<open>The effect of the whole function on the store\<close>

lemma evolves_empty_take:
  assumes "evolves {} s s'"
  shows "take (length (objs s)) (objs s') = objs s \<and> take (length (arrs s)) (arrs s') = arrs s"
proof -
  have "take (length (arrs s)) (arrs s') = arrs s"
    using assms by (intro nth_equalityI) (auto simp: evolves_def)
  then show ?thesis using assms by (simp add: evolves_def)
qed

lemma optimizeSimultaneousNotes_total:
  "\<exists>res s'. optimizeSimultaneousNotes rh lh cfg s = Some (res, s') \<and> evolves {} s s' \<and>
     (\<forall>oR oL. res = Inr (oR, oL) \<longrightarrow>
        length (arrs s) \<le> oR \<and> oR < oL \<and> oL < length (arrs s') \<and>
        distinct (arrs s' ! oR) \<and> distinct (arrs s' ! oL) \<and>
        set (arrs s' ! oR) \<union> set (arrs s' ! oL) \<subseteq> {length (objs s)..<length (objs s')}) \<and>
     ((\<exists>e. res = Inl e) \<longrightarrow> maxRightHandNotes cfg < 0 \<or> maxLeftHandNotes cfg < 0)"
proof -
  define rc where "rc = fst (mapCopy rh s)"
  define s1 where "s1 = snd (mapCopy rh s)"
  define lc where "lc = fst (mapCopy lh s1)"
  define s2 where "s2 = snd (mapCopy lh s1)"
  define allNotes where "allNotes = fst (newArr (arrayAt s2 rc @ arrayAt s2 lc) s2)"
  define s3 where "s3 = snd (newArr (arrayAt s2 rc @ arrayAt s2 lc) s2)"
  define timeSlices where "timeSlices = fst (createTimeSlices allNotes s3)"
  define s4 where "s4 = snd (createTimeSlices allNotes s3)"
  define oR where "oR = length (arrs s4)"
  define s5 where "s5 = snd (newArr [] s4)"
  define oL where "oL = Suc (length (arrs s4))"
  define s6 where "s6 = snd (newArr [] s5)"
  have unfold: "optimizeSimultaneousNotes rh lh cfg s
      = (case forEachSlice (processSlice cfg rc lc oR oL) timeSlices s6 of
           None \<Rightarrow> None
         | Some (Inl e, s7) \<Rightarrow> Some (Inl e, s7)
         | Some (Inr u, s7) \<Rightarrow> Some (Inr (oR, oL), s7))"
  proof -
    have o1: "fst (newArr [] s4) = oR" by (simp add: oR_def)
    have o2: "fst (newArr [] s5) = oL" by (simp add: oL_def s5_def)
    show ?thesis
      by (simp only: optimizeSimultaneousNotes_def split_beta Let_def
          rc_def [symmetric] s1_def [symmetric] lc_def [symmetric] s2_def [symmetric]
          allNotes_def [symmetric] s3_def [symmetric] timeSlices_def [symmetric]
          s4_def [symmetric] s5_def [symmetric] s6_def [symmetric] o1 o2)
  qed
  have e01: "evolves {} s s1" unfolding s1_def using mapCopy_evolves by blast
  have e12: "evolves {} s1 s2" unfolding s2_def using mapCopy_evolves by blast
  have e23: "evolves {} s2 s3" unfolding s3_def by (rule evolves_newArr)
  have e34: "evolves {} s3 s4" unfolding s4_def by (rule createTimeSlices_evolves)
  have e45: "evolves {} s4 s5" unfolding s5_def by (rule evolves_newArr)
  have e56: "evolves {} s5 s6" unfolding s6_def by (rule evolves_newArr)
  have e04: "evolves {} s s4"
    using evolves_trans [OF evolves_trans [OF evolves_trans [OF e01 e12] e23] e34] by simp
  have e06: "evolves {} s s6"
    using evolves_trans [OF evolves_trans [OF e04 e45] e56] by simp
  have arrs6: "arrs s6 = arrs s4 @ [[], []]" by (simp add: s6_def s5_def)
  have pre: "oR < length (arrs s6)" "oL < length (arrs s6)" "oR \<noteq> oL"
    by (simp_all add: arrs6 oR_def oL_def)
  have init: "arrs s6 ! oR = []" "arrs s6 ! oL = []"
    by (simp_all add: arrs6 oR_def oL_def nth_append)
  have low: "length (arrs s) \<le> oR" "oR < oL"
    using evolves_lengths [OF e04] by (simp_all add: oR_def oL_def)
  from forEachSlice_total [OF pre, of cfg rc lc timeSlices] obtain res s7 where
    f: "forEachSlice (processSlice cfg rc lc oR oL) timeSlices s6 = Some (res, s7)"
       "sliceEffect oR oL s6 s7"
       "res \<noteq> Inr () \<longrightarrow> maxRightHandNotes cfg < 0 \<or> maxLeftHandNotes cfg < 0"
    by blast
  have e67: "evolves {oR, oL} s6 s7" using f(2) by (simp add: sliceEffect_def)
  have e07: "evolves {} s s7"
    using low by (intro evolves_restrict [OF evolves_trans [OF e06 e67]]) auto
  have len7: "oL < length (arrs s7)"
    using evolves_lengths [OF e67] pre by simp
  have le6: "length (objs s) \<le> length (objs s6)" using evolves_lengths [OF e06] by simp
  from f(2) init obtain nr nl where
    new: "arrs s7 ! oR = nr" "distinct nr" "set nr \<subseteq> {length (objs s6)..<length (objs s7)}"
         "arrs s7 ! oL = nl" "distinct nl" "set nl \<subseteq> {length (objs s6)..<length (objs s7)}"
    by (auto simp: sliceEffect_def)
  have fresh: "set (arrs s7 ! oR) \<union> set (arrs s7 ! oL) \<subseteq> {length (objs s)..<length (objs s7)}"
    using new(1,3,4,6) le6 by fastforce
  show ?thesis
  proof (cases res)
    case (Inl e)
    then have "optimizeSimultaneousNotes rh lh cfg s = Some (Inl e, s7)"
      unfolding unfold f(1) by simp
    with e07 f(3) Inl show ?thesis by auto
  next
    case (Inr u)
    then have "optimizeSimultaneousNotes rh lh cfg s = Some (Inr (oR, oL), s7)"
      unfolding unfold f(1) by simp
    with e07 low len7 new(1,2,4,5) fresh show ?thesis by auto
  qed
qed

subsection \<open>Which note a loop picks\<close>

lemma foldl_pick_last:
  fixes key :: "ref \<Rightarrow> int"
  shows "\<exists>pre post. x # xs = pre @ foldl (\<lambda>a b. if key a < key b then a else b) x xs # post \<and>
           (\<forall>y\<in>set pre. key (foldl (\<lambda>a b. if key a < key b then a else b) x xs) \<le> key y) \<and>
           (\<forall>y\<in>set post. key (foldl (\<lambda>a b. if key a < key b then a else b) x xs) < key y)"
proof (induction xs rule: rev_induct)
  case Nil
  show ?case by (intro exI [of _ "[]"]) simp
next
  case (snoc b xs)
  let ?f = "\<lambda>a b. if key a < key b then a else b"
  let ?r = "foldl ?f x xs"
  from snoc obtain pre post where
    ih: "x # xs = pre @ ?r # post" "\<forall>y\<in>set pre. key ?r \<le> key y" "\<forall>y\<in>set post. key ?r < key y"
    by blast
  show ?case
  proof (cases "key ?r < key b")
    case True
    then have "foldl ?f x (xs @ [b]) = ?r" by simp
    moreover have "x # xs @ [b] = pre @ ?r # (post @ [b])" using ih(1) by simp
    moreover have "\<forall>y\<in>set (post @ [b]). key ?r < key y" using ih(3) True by simp
    ultimately show ?thesis using ih(2) by (metis (no_types, lifting))
  next
    case False
    then have r: "foldl ?f x (xs @ [b]) = b" by simp
    have "x # xs @ [b] = (pre @ ?r # post) @ b # []" using ih(1) by simp
    moreover have "\<forall>y\<in>set (pre @ ?r # post). key b \<le> key y"
      using ih(2,3) False by fastforce
    ultimately show ?thesis unfolding r by (metis (no_types, lifting) empty_iff list.set(1))
  qed
qed

lemma reduceNotes_lowest:
  assumes "xs \<noteq> []"
  shows "\<exists>pre r post. xs = pre @ r # post \<and> reduceNotes lowerPitch s xs = Inr r \<and>
           (\<forall>y\<in>set pre. midi (noteAt s r) \<le> midi (noteAt s y)) \<and>
           (\<forall>y\<in>set post. midi (noteAt s r) < midi (noteAt s y))"
proof -
  from assms obtain x rest where xs: "xs = x # rest" by (cases xs) auto
  from foldl_pick_last [of x rest "\<lambda>r. midi (noteAt s r)"] show ?thesis
    unfolding xs by (simp add: reduceNotes_def lowerPitch_def)
qed

lemma reduceNotes_highest:
  assumes "xs \<noteq> []"
  shows "\<exists>pre r post. xs = pre @ r # post \<and> reduceNotes higherPitch s xs = Inr r \<and>
           (\<forall>y\<in>set pre. midi (noteAt s y) \<le> midi (noteAt s r)) \<and>
           (\<forall>y\<in>set post. midi (noteAt s y) < midi (noteAt s r))"
proof -
  from assms obtain x rest where xs: "xs = x # rest" by (cases xs) auto
  from foldl_pick_last [of x rest "\<lambda>r. - midi (noteAt s r)"] show ?thesis
    unfolding xs by (simp add: reduceNotes_def higherPitch_def)
qed

lemma moveNote_picked:
  assumes "src \<noteq> dst" "src < length (arrs s)" "dst < length (arrs s)"
    "reduceNotes keep s (arrayAt s src) = Inr r"
  shows "moveNote keep src dst s
           = Inr (s\<lparr>arrs := (arrs s)[src := remove1 r (arrayAt s src), dst := arrayAt s dst @ [r]]\<rparr>)"
proof -
  from assms(4) have "arrs s ! src \<noteq> []" by (auto simp: reduceNotes_def arrayAt_def)
  from moveNote_step [OF assms(1-3) this, of keep] assms(4) show ?thesis
    by (auto simp: arrayAt_def)
qed

lemma lowest_last_moved:
  assumes "src \<noteq> dst" "src < length (arrs s)" "dst < length (arrs s)" "arrayAt s src \<noteq> []"
  shows "\<exists>pre r post. arrayAt s src = pre @ r # post \<and>
            (\<forall>y\<in>set pre. midi (noteAt s r) \<le> midi (noteAt s y)) \<and>
            (\<forall>y\<in>set post. midi (noteAt s r) < midi (noteAt s y)) \<and>
            (distinct (arrayAt s src) \<longrightarrow> remove1 r (arrayAt s src) = pre @ post) \<and>
            moveNote lowerPitch src dst s
              = Inr (s\<lparr>arrs := (arrs s)[src := remove1 r (arrayAt s src), dst := arrayAt s dst @ [r]]\<rparr>)"
proof -
  from reduceNotes_lowest [OF assms(4), of s] obtain pre r post where
    p: "arrayAt s src = pre @ r # post" "reduceNotes lowerPitch s (arrayAt s src) = Inr r"
       "\<forall>y\<in>set pre. midi (noteAt s r) \<le> midi (noteAt s y)"
       "\<forall>y\<in>set post. midi (noteAt s r) < midi (noteAt s y)"
    by blast
  have "distinct (arrayAt s src) \<longrightarrow> remove1 r (arrayAt s src) = pre @ post"
    unfolding p(1) by (simp add: remove1_append)
  with moveNote_picked [OF assms(1-3) p(2)] p(1,3,4) show ?thesis by blast
qed

lemma highest_last_moved:
  assumes "src \<noteq> dst" "src < length (arrs s)" "dst < length (arrs s)" "arrayAt s src \<noteq> []"
  shows "\<exists>pre r post. arrayAt s src = pre @ r # post \<and>
            (\<forall>y\<in>set pre. midi (noteAt s y) \<le> midi (noteAt s r)) \<and>
            (\<forall>y\<in>set post. midi (noteAt s y) < midi (noteAt s r)) \<and>
            (distinct (arrayAt s src) \<longrightarrow> remove1 r (arrayAt s src) = pre @ post) \<and>
            moveNote higherPitch src dst s
              = Inr (s\<lparr>arrs := (arrs s)[src := remove1 r (arrayAt s src), dst := arrayAt s dst @ [r]]\<rparr>)"
proof -
  from reduceNotes_highest [OF assms(4), of s] obtain pre r post where
    p: "arrayAt s src = pre @ r # post" "reduceNotes higherPitch s (arrayAt s src) = Inr r"
       "\<forall>y\<in>set pre. midi (noteAt s y) \<le> midi (noteAt s r)"
       "\<forall>y\<in>set post. midi (noteAt s y) < midi (noteAt s r)"
    by blast
  have "distinct (arrayAt s src) \<longrightarrow> remove1 r (arrayAt s src) = pre @ post"
    unfolding p(1) by (simp add: remove1_append)
  with moveNote_picked [OF assms(1-3) p(2)] p(1,3,4) show ?thesis by blast
qed

lemma split3:
  assumes "[a, b, c] = pre @ r # post"
  shows "(pre = [] \<and> r = a \<and> post = [b, c]) \<or> (pre = [a] \<and> r = b \<and> post = [c]) \<or>
         (pre = [a, b] \<and> r = c \<and> post = [])"
  using assms by (auto simp: Cons_eq_append_conv)

subsection \<open>One turn of a loop\<close>

lemma moveWhileOver_step:
  assumes "limit < int (length (arrayAt s src))" "moveNote keep src dst s = Inr s'"
  shows "moveWhileOver keep limit src dst s = moveWhileOver keep limit src dst s'"
  using assms by (subst moveWhileOver.simps) simp

lemma moveWhileOver_stop:
  assumes "int (length (arrayAt s src)) \<le> limit"
  shows "moveWhileOver keep limit src dst s = Some (Inr (), s)"
  using assms by (subst moveWhileOver.simps) simp

lemma rebalance_right_idle:
  assumes "int (length (arrayAt s sr)) \<le> maxRightHandNotes cfg"
  shows "rebalance cfg sr sl s = moveWhileOver higherPitch (maxLeftHandNotes cfg) sl sr s"
  by (simp add: rebalance_def moveWhileOver_stop [OF assms])

subsection \<open>When the two loops of a slice end without an exception\<close>

lemma moveWhileOver_ok_nonneg:
  assumes "src \<noteq> dst" "src < length (arrs s)" "dst < length (arrs s)"
    "moveWhileOver keep limit src dst s = Some (Inr (), s')"
  shows "0 \<le> limit"
proof -
  from moveWhileOver_total [OF assms(1-3), of keep limit] obtain res xs ys where
    "moveWhileOver keep limit src dst s = Some (res, s\<lparr>arrs := (arrs s)[src := xs, dst := ys]\<rparr>)"
    "res = Inr () \<longrightarrow> int (length xs) \<le> limit"
    by blast
  with assms(4) have "int (length xs) \<le> limit" by simp
  then show ?thesis by simp
qed

lemma rebalance_ok_iff:
  assumes "sr \<noteq> sl" "sr < length (arrs s)" "sl < length (arrs s)"
  shows "\<exists>res s'. rebalance cfg sr sl s = Some (res, s') \<and>
           (res = Inr () \<longleftrightarrow> 0 \<le> maxRightHandNotes cfg \<and> 0 \<le> maxLeftHandNotes cfg)"
proof -
  from rebalance_total [OF assms, of cfg] obtain res xs ys where
    r: "rebalance cfg sr sl s = Some (res, s\<lparr>arrs := (arrs s)[sr := xs, sl := ys]\<rparr>)"
       "res \<noteq> Inr () \<longrightarrow> maxRightHandNotes cfg < 0 \<or> maxLeftHandNotes cfg < 0"
    by blast
  have "0 \<le> maxRightHandNotes cfg \<and> 0 \<le> maxLeftHandNotes cfg" if ok: "res = Inr ()"
  proof -
    from moveWhileOver_total [OF assms, of lowerPitch "maxRightHandNotes cfg"]
    obtain res1 xs1 ys1 where
      l1: "moveWhileOver lowerPitch (maxRightHandNotes cfg) sr sl s
             = Some (res1, s\<lparr>arrs := (arrs s)[sr := xs1, sl := ys1]\<rparr>)"
      by blast
    let ?s1 = "s\<lparr>arrs := (arrs s)[sr := xs1, sl := ys1]\<rparr>"
    have res1: "res1 = Inr ()"
    proof (rule ccontr)
      assume "res1 \<noteq> Inr ()"
      then obtain e where "res1 = Inl e" by (cases res1) auto
      with l1 have "rebalance cfg sr sl s = Some (Inl e, ?s1)" by (simp add: rebalance_def)
      with r(1) ok show False by simp
    qed
    with l1 have 1: "0 \<le> maxRightHandNotes cfg"
      using moveWhileOver_ok_nonneg [OF assms] by blast
    have l2: "moveWhileOver higherPitch (maxLeftHandNotes cfg) sl sr ?s1 = Some (Inr (), s\<lparr>arrs := (arrs s)[sr := xs, sl := ys]\<rparr>)"
      using r(1) l1 res1 ok by (simp add: rebalance_def)
    have pre: "sl \<noteq> sr" "sl < length (arrs ?s1)" "sr < length (arrs ?s1)"
      using assms by simp_all
    from moveWhileOver_ok_nonneg [OF pre l2] 1 show ?thesis by simp
  qed
  with r show ?thesis by (metis linorder_not_le)
qed

subsection \<open>Claims about the balancer\<close>

text \<open>
  Claim C3, as the code has it. The balancer first runs its right-to-left pass and then its
  left-to-right pass. While the right-hand subset holds more notes than the right-hand
  ceiling of the configuration, a turn of the right-to-left pass takes a note of lowest
  pitch out of the right-hand subset and pushes it onto the end of the left-hand subset,
  and the balancer goes on from there; among notes of that same lowest pitch it takes the
  last one in the subset's current order: every note before it is no lower, every note
  after it is strictly higher. Once the right-hand subset is within its ceiling the
  balancer is its left-to-right pass: while the left-hand subset holds more notes than
  the left-hand ceiling, a turn takes a note of highest pitch out of the left-hand subset
  and pushes it onto the end of the right-hand subset, and among notes of that same
  highest pitch the last one: every note before it is no higher, every note after it is
  strictly lower. The pass ends, nothing moved, when the left-hand subset is within its
  ceiling. The note is removed by identity; where the subset holds no reference twice,
  what remains is the notes before it followed by the notes after it. On the chord of
  pitches 70, 72 and 75 under a right-hand ceiling of two the note of pitch 70 goes to the
  left hand; on the left-hand notes of pitches 48, 43 and 48 under a left-hand ceiling of
  two the second note of pitch 48 goes to the right hand.
\<close>

theorem rebalance_moves_last_extremal:
  assumes "sr \<noteq> sl" "sr < length (arrs s)" "sl < length (arrs s)"
  shows "((maxRightHandNotes cfg < int (length (arrayAt s sr)) \<and> arrayAt s sr \<noteq> [] \<longrightarrow>
           (\<exists>pre r post. arrayAt s sr = pre @ r # post \<and>
              (\<forall>y\<in>set pre. midi (noteAt s r) \<le> midi (noteAt s y)) \<and>
              (\<forall>y\<in>set post. midi (noteAt s r) < midi (noteAt s y)) \<and>
              (distinct (arrayAt s sr) \<longrightarrow> remove1 r (arrayAt s sr) = pre @ post) \<and>
              rebalance cfg sr sl s
                = rebalance cfg sr sl
                    (s\<lparr>arrs := (arrs s)[sr := remove1 r (arrayAt s sr), sl := arrayAt s sl @ [r]]\<rparr>))) \<and>
         (int (length (arrayAt s sr)) \<le> maxRightHandNotes cfg \<longrightarrow>
            rebalance cfg sr sl s = moveWhileOver higherPitch (maxLeftHandNotes cfg) sl sr s) \<and>
         (maxLeftHandNotes cfg < int (length (arrayAt s sl)) \<and> arrayAt s sl \<noteq> [] \<longrightarrow>
           (\<exists>pre r post. arrayAt s sl = pre @ r # post \<and>
              (\<forall>y\<in>set pre. midi (noteAt s y) \<le> midi (noteAt s r)) \<and>
              (\<forall>y\<in>set post. midi (noteAt s y) < midi (noteAt s r)) \<and>
              (distinct (arrayAt s sl) \<longrightarrow> remove1 r (arrayAt s sl) = pre @ post) \<and>
              moveWhileOver higherPitch (maxLeftHandNotes cfg) sl sr s
                = moveWhileOver higherPitch (maxLeftHandNotes cfg) sl sr
                    (s\<lparr>arrs := (arrs s)[sl := remove1 r (arrayAt s sl), sr := arrayAt s sr @ [r]]\<rparr>) \<and>
              (int (length (arrayAt s sr)) \<le> maxRightHandNotes cfg \<longrightarrow>
                 rebalance cfg sr sl s
                   = moveWhileOver higherPitch (maxLeftHandNotes cfg) sl sr
                       (s\<lparr>arrs := (arrs s)[sl := remove1 r (arrayAt s sl), sr := arrayAt s sr @ [r]]\<rparr>)))) \<and>
         (int (length (arrayAt s sl)) \<le> maxLeftHandNotes cfg \<longrightarrow>
            moveWhileOver higherPitch (maxLeftHandNotes cfg) sl sr s = Some (Inr (), s))) \<and>
         rebalance ceilingTwo 0 1 (storeOf chordHands)
           = Some (Inr (), (storeOf chordHands)\<lparr>arrs := [[1, 2], [0]]\<rparr>) \<and>
         balancedArrangement ceilingTwo chordHands
           = Some (Inr \<lparr>rightHand = [mkNote 72 0 1 (Some 1), mkNote 75 0 1 (Some 1)],
                        leftHand = [mkNote 70 0 1 (Some 1)]\<rparr>) \<and>
         rebalance leftCeilingTwo 0 1 (storeOf tiedBass)
           = Some (Inr (), (storeOf tiedBass)\<lparr>arrs := [[2], [0, 1]]\<rparr>) \<and>
         balancedArrangement leftCeilingTwo tiedBass
           = Some (Inr \<lparr>rightHand = [mkNote 48 0 2 (Some 1)],
                        leftHand = [mkNote 48 0 1 (Some 1), mkNote 43 0 1 (Some 1)]\<rparr>)"
proof (rule conjI)
  show "(maxRightHandNotes cfg < int (length (arrayAt s sr)) \<and> arrayAt s sr \<noteq> [] \<longrightarrow>
           (\<exists>pre r post. arrayAt s sr = pre @ r # post \<and>
              (\<forall>y\<in>set pre. midi (noteAt s r) \<le> midi (noteAt s y)) \<and>
              (\<forall>y\<in>set post. midi (noteAt s r) < midi (noteAt s y)) \<and>
              (distinct (arrayAt s sr) \<longrightarrow> remove1 r (arrayAt s sr) = pre @ post) \<and>
              rebalance cfg sr sl s
                = rebalance cfg sr sl
                    (s\<lparr>arrs := (arrs s)[sr := remove1 r (arrayAt s sr), sl := arrayAt s sl @ [r]]\<rparr>))) \<and>
         (int (length (arrayAt s sr)) \<le> maxRightHandNotes cfg \<longrightarrow>
            rebalance cfg sr sl s = moveWhileOver higherPitch (maxLeftHandNotes cfg) sl sr s) \<and>
         (maxLeftHandNotes cfg < int (length (arrayAt s sl)) \<and> arrayAt s sl \<noteq> [] \<longrightarrow>
           (\<exists>pre r post. arrayAt s sl = pre @ r # post \<and>
              (\<forall>y\<in>set pre. midi (noteAt s y) \<le> midi (noteAt s r)) \<and>
              (\<forall>y\<in>set post. midi (noteAt s y) < midi (noteAt s r)) \<and>
              (distinct (arrayAt s sl) \<longrightarrow> remove1 r (arrayAt s sl) = pre @ post) \<and>
              moveWhileOver higherPitch (maxLeftHandNotes cfg) sl sr s
                = moveWhileOver higherPitch (maxLeftHandNotes cfg) sl sr
                    (s\<lparr>arrs := (arrs s)[sl := remove1 r (arrayAt s sl), sr := arrayAt s sr @ [r]]\<rparr>) \<and>
              (int (length (arrayAt s sr)) \<le> maxRightHandNotes cfg \<longrightarrow>
                 rebalance cfg sr sl s
                   = moveWhileOver higherPitch (maxLeftHandNotes cfg) sl sr
                       (s\<lparr>arrs := (arrs s)[sl := remove1 r (arrayAt s sl), sr := arrayAt s sr @ [r]]\<rparr>)))) \<and>
         (int (length (arrayAt s sl)) \<le> maxLeftHandNotes cfg \<longrightarrow>
            moveWhileOver higherPitch (maxLeftHandNotes cfg) sl sr s = Some (Inr (), s))"
  proof (intro conjI impI)
    assume h: "maxRightHandNotes cfg < int (length (arrayAt s sr)) \<and> arrayAt s sr \<noteq> []"
    from lowest_last_moved [OF assms] h obtain pre r post where
      p: "arrayAt s sr = pre @ r # post"
         "\<forall>y\<in>set pre. midi (noteAt s r) \<le> midi (noteAt s y)"
         "\<forall>y\<in>set post. midi (noteAt s r) < midi (noteAt s y)"
         "distinct (arrayAt s sr) \<longrightarrow> remove1 r (arrayAt s sr) = pre @ post"
         "moveNote lowerPitch sr sl s
                = Inr (s\<lparr>arrs := (arrs s)[sr := remove1 r (arrayAt s sr), sl := arrayAt s sl @ [r]]\<rparr>)"
      by blast
    from h p(5) have "moveWhileOver lowerPitch (maxRightHandNotes cfg) sr sl s
        = moveWhileOver lowerPitch (maxRightHandNotes cfg) sr sl
            (s\<lparr>arrs := (arrs s)[sr := remove1 r (arrayAt s sr), sl := arrayAt s sl @ [r]]\<rparr>)"
      by (intro moveWhileOver_step) simp_all
    then have "rebalance cfg sr sl s
                  = rebalance cfg sr sl
                      (s\<lparr>arrs := (arrs s)[sr := remove1 r (arrayAt s sr), sl := arrayAt s sl @ [r]]\<rparr>)"
      by (simp only: rebalance_def)
    with p(1-4) show "\<exists>pre r post. arrayAt s sr = pre @ r # post \<and>
                (\<forall>y\<in>set pre. midi (noteAt s r) \<le> midi (noteAt s y)) \<and>
                (\<forall>y\<in>set post. midi (noteAt s r) < midi (noteAt s y)) \<and>
                (distinct (arrayAt s sr) \<longrightarrow> remove1 r (arrayAt s sr) = pre @ post) \<and>
                rebalance cfg sr sl s
                  = rebalance cfg sr sl
                      (s\<lparr>arrs := (arrs s)[sr := remove1 r (arrayAt s sr), sl := arrayAt s sl @ [r]]\<rparr>)"
      by (intro exI conjI)
  next
    assume "int (length (arrayAt s sr)) \<le> maxRightHandNotes cfg"
    then show "rebalance cfg sr sl s = moveWhileOver higherPitch (maxLeftHandNotes cfg) sl sr s"
      by (rule rebalance_right_idle)
  next
    assume h: "maxLeftHandNotes cfg < int (length (arrayAt s sl)) \<and> arrayAt s sl \<noteq> []"
    from assms have pre: "sl \<noteq> sr" by simp
    from highest_last_moved [OF pre assms(3) assms(2)] h obtain pre r post where
      p: "arrayAt s sl = pre @ r # post"
         "\<forall>y\<in>set pre. midi (noteAt s y) \<le> midi (noteAt s r)"
         "\<forall>y\<in>set post. midi (noteAt s y) < midi (noteAt s r)"
         "distinct (arrayAt s sl) \<longrightarrow> remove1 r (arrayAt s sl) = pre @ post"
         "moveNote higherPitch sl sr s
                = Inr (s\<lparr>arrs := (arrs s)[sl := remove1 r (arrayAt s sl), sr := arrayAt s sr @ [r]]\<rparr>)"
      by blast
    from h p(5) have "moveWhileOver higherPitch (maxLeftHandNotes cfg) sl sr s
        = moveWhileOver higherPitch (maxLeftHandNotes cfg) sl sr
            (s\<lparr>arrs := (arrs s)[sl := remove1 r (arrayAt s sl), sr := arrayAt s sr @ [r]]\<rparr>)"
      by (intro moveWhileOver_step) simp_all
    then have "moveWhileOver higherPitch (maxLeftHandNotes cfg) sl sr s
        = moveWhileOver higherPitch (maxLeftHandNotes cfg) sl sr
            (s\<lparr>arrs := (arrs s)[sl := remove1 r (arrayAt s sl), sr := arrayAt s sr @ [r]]\<rparr>)"
      and "int (length (arrayAt s sr)) \<le> maxRightHandNotes cfg \<longrightarrow>
             rebalance cfg sr sl s
               = moveWhileOver higherPitch (maxLeftHandNotes cfg) sl sr
                   (s\<lparr>arrs := (arrs s)[sl := remove1 r (arrayAt s sl), sr := arrayAt s sr @ [r]]\<rparr>)"
      by (simp_all add: rebalance_right_idle)
    with p(1-4) show "\<exists>pre r post. arrayAt s sl = pre @ r # post \<and>
                (\<forall>y\<in>set pre. midi (noteAt s y) \<le> midi (noteAt s r)) \<and>
                (\<forall>y\<in>set post. midi (noteAt s y) < midi (noteAt s r)) \<and>
                (distinct (arrayAt s sl) \<longrightarrow> remove1 r (arrayAt s sl) = pre @ post) \<and>
                moveWhileOver higherPitch (maxLeftHandNotes cfg) sl sr s
                  = moveWhileOver higherPitch (maxLeftHandNotes cfg) sl sr
                      (s\<lparr>arrs := (arrs s)[sl := remove1 r (arrayAt s sl), sr := arrayAt s sr @ [r]]\<rparr>) \<and>
                (int (length (arrayAt s sr)) \<le> maxRightHandNotes cfg \<longrightarrow>
                   rebalance cfg sr sl s
                     = moveWhileOver higherPitch (maxLeftHandNotes cfg) sl sr
                         (s\<lparr>arrs := (arrs s)[sl := remove1 r (arrayAt s sl), sr := arrayAt s sr @ [r]]\<rparr>))"
      by (intro exI conjI)
  next
    assume "int (length (arrayAt s sl)) \<le> maxLeftHandNotes cfg"
    then show "moveWhileOver higherPitch (maxLeftHandNotes cfg) sl sr s = Some (Inr (), s)"
      by (rule moveWhileOver_stop)
  qed
next
  show "rebalance ceilingTwo 0 1 (storeOf chordHands)
           = Some (Inr (), (storeOf chordHands)\<lparr>arrs := [[1, 2], [0]]\<rparr>) \<and>
         balancedArrangement ceilingTwo chordHands
           = Some (Inr \<lparr>rightHand = [mkNote 72 0 1 (Some 1), mkNote 75 0 1 (Some 1)],
                        leftHand = [mkNote 70 0 1 (Some 1)]\<rparr>) \<and>
         rebalance leftCeilingTwo 0 1 (storeOf tiedBass)
           = Some (Inr (), (storeOf tiedBass)\<lparr>arrs := [[2], [0, 1]]\<rparr>) \<and>
         balancedArrangement leftCeilingTwo tiedBass
           = Some (Inr \<lparr>rightHand = [mkNote 48 0 2 (Some 1)],
                        leftHand = [mkNote 48 0 1 (Some 1), mkNote 43 0 1 (Some 1)]\<rparr>)"
    by code_simp
qed

theorem rebalance_moves_last_extremal_witness:
  "(0::nat) \<noteq> 1 \<and> 0 < length (arrs (storeOf tiedChord)) \<and> 1 < length (arrs (storeOf tiedChord)) \<and>
   arrayAt (storeOf tiedChord) 0 = [0, 1, 2] \<and>
   map (\<lambda>r. midi (noteAt (storeOf tiedChord) r)) [0, 1, 2] = [60, 67, 60] \<and>
   maxRightHandNotes ceilingTwo < int (length (arrayAt (storeOf tiedChord) 0)) \<and>
   rebalance ceilingTwo 0 1 (storeOf tiedChord)
     = rebalance ceilingTwo 0 1 ((storeOf tiedChord)\<lparr>arrs := [[0, 1], [2]]\<rparr>) \<and>
   rebalance ceilingTwo 0 1 (storeOf tiedChord)
     = Some (Inr (), (storeOf tiedChord)\<lparr>arrs := [[0, 1], [2]]\<rparr>) \<and>
   0 < length (arrs (storeOf tiedBass)) \<and> 1 < length (arrs (storeOf tiedBass)) \<and>
   arrayAt (storeOf tiedBass) 1 = [0, 1, 2] \<and>
   map (\<lambda>r. midi (noteAt (storeOf tiedBass) r)) [0, 1, 2] = [48, 43, 48] \<and>
   int (length (arrayAt (storeOf tiedBass) 0)) \<le> maxRightHandNotes leftCeilingTwo \<and>
   maxLeftHandNotes leftCeilingTwo < int (length (arrayAt (storeOf tiedBass) 1)) \<and>
   rebalance leftCeilingTwo 0 1 (storeOf tiedBass)
     = moveWhileOver higherPitch (maxLeftHandNotes leftCeilingTwo) 1 0
         ((storeOf tiedBass)\<lparr>arrs := [[2], [0, 1]]\<rparr>) \<and>
   rebalance leftCeilingTwo 0 1 (storeOf tiedBass)
     = Some (Inr (), (storeOf tiedBass)\<lparr>arrs := [[2], [0, 1]]\<rparr>)"
proof -
  let ?S = "storeOf tiedChord" and ?T = "storeOf tiedBass"
  let ?S' = "?S\<lparr>arrs := [[0, 1], [2]]\<rparr>" and ?T' = "?T\<lparr>arrs := [[2], [0, 1]]\<rparr>"
  have a: "arrayAt ?S 0 = [0, 1, 2]" "arrayAt ?S 1 = []" "arrs ?S = [[0, 1, 2], []]"
    by (simp_all add: storeOf_def tiedChord_def arrayAt_def upt_rec)
  have m: "midi (noteAt ?S 0) = 60" "midi (noteAt ?S 1) = 67" "midi (noteAt ?S 2) = 60"
    by (simp_all add: storeOf_def tiedChord_def noteAt_def mkNote_def)
  have b: "arrayAt ?T 0 = []" "arrayAt ?T 1 = [0, 1, 2]" "arrs ?T = [[], [0, 1, 2]]"
    by (simp_all add: storeOf_def tiedBass_def arrayAt_def upt_rec)
  have n: "midi (noteAt ?T 0) = 48" "midi (noteAt ?T 1) = 43" "midi (noteAt ?T 2) = 48"
    by (simp_all add: storeOf_def tiedBass_def noteAt_def mkNote_def)
  have c: "maxRightHandNotes ceilingTwo = 2" "maxLeftHandNotes ceilingTwo = 10"
    "maxRightHandNotes leftCeilingTwo = 12" "maxLeftHandNotes leftCeilingTwo = 2"
    by (simp_all add: ceilingTwo_def leftCeilingTwo_def defaultOptions_def)
  have preS: "(0::nat) \<noteq> 1" "0 < length (arrs ?S)" "1 < length (arrs ?S)" by (simp_all add: a)
  have preS': "(0::nat) \<noteq> 1" "0 < length (arrs ?S')" "1 < length (arrs ?S')" by simp_all
  have preT: "(0::nat) \<noteq> 1" "0 < length (arrs ?T)" "1 < length (arrs ?T)" by (simp_all add: b)
  have preT': "(0::nat) \<noteq> 1" "0 < length (arrs ?T')" "1 < length (arrs ?T')" by simp_all
  have lo: "r = 2" if "[0, 1, 2] = pre @ r # post"
    "\<forall>y\<in>set pre. midi (noteAt ?S r) \<le> midi (noteAt ?S y)"
    "\<forall>y\<in>set post. midi (noteAt ?S r) < midi (noteAt ?S y)"
    for pre post :: "nat list" and r
    using split3 [OF that(1)] that(2,3) m by auto
  have hi: "r = 2" if "[0, 1, 2] = pre @ r # post"
    "\<forall>y\<in>set pre. midi (noteAt ?T y) \<le> midi (noteAt ?T r)"
    "\<forall>y\<in>set post. midi (noteAt ?T y) < midi (noteAt ?T r)"
    for pre post :: "nat list" and r
    using split3 [OF that(1)] that(2,3) n by auto
  have trigS: "maxRightHandNotes ceilingTwo < int (length (arrayAt ?S 0)) \<and> arrayAt ?S 0 \<noteq> []"
    by (simp add: a c)
  have trigT: "maxLeftHandNotes leftCeilingTwo < int (length (arrayAt ?T 1)) \<and> arrayAt ?T 1 \<noteq> []"
    unfolding b c by simp
  have idleT: "int (length (arrayAt ?T 0)) \<le> maxRightHandNotes leftCeilingTwo"
    by (simp add: b c)
  from rebalance_moves_last_extremal [OF preS, of ceilingTwo] trigS
  obtain pre r post where
    p: "arrayAt ?S 0 = pre @ r # post"
       "\<forall>y\<in>set pre. midi (noteAt ?S r) \<le> midi (noteAt ?S y)"
       "\<forall>y\<in>set post. midi (noteAt ?S r) < midi (noteAt ?S y)"
       "rebalance ceilingTwo 0 1 ?S
          = rebalance ceilingTwo 0 1
              (?S\<lparr>arrs := (arrs ?S)[0 := remove1 r (arrayAt ?S 0), 1 := arrayAt ?S 1 @ [r]]\<rparr>)"
    by blast
  from lo [OF p(1) [unfolded a] p(2,3)] have "r = 2" .
  with p(4) have s1: "rebalance ceilingTwo 0 1 ?S = rebalance ceilingTwo 0 1 ?S'"
    unfolding a by simp
  from rebalance_moves_last_extremal [OF preS', of ceilingTwo]
  have s2: "rebalance ceilingTwo 0 1 ?S' = Some (Inr (), ?S')"
    by (simp add: arrayAt_def c)
  from rebalance_moves_last_extremal [OF preT, of leftCeilingTwo] trigT idleT
  obtain pre' r' post' where
    q: "arrayAt ?T 1 = pre' @ r' # post'"
       "\<forall>y\<in>set pre'. midi (noteAt ?T y) \<le> midi (noteAt ?T r')"
       "\<forall>y\<in>set post'. midi (noteAt ?T y) < midi (noteAt ?T r')"
       "rebalance leftCeilingTwo 0 1 ?T
          = moveWhileOver higherPitch (maxLeftHandNotes leftCeilingTwo) 1 0
              (?T\<lparr>arrs := (arrs ?T)[1 := remove1 r' (arrayAt ?T 1), 0 := arrayAt ?T 0 @ [r']]\<rparr>)"
    by blast
  from hi [OF q(1) [unfolded b] q(2,3)] have "r' = 2" .
  with q(4) have t1: "rebalance leftCeilingTwo 0 1 ?T
          = moveWhileOver higherPitch (maxLeftHandNotes leftCeilingTwo) 1 0 ?T'"
    unfolding b by simp
  from rebalance_moves_last_extremal [OF preT', of leftCeilingTwo]
  have t2: "moveWhileOver higherPitch (maxLeftHandNotes leftCeilingTwo) 1 0 ?T' = Some (Inr (), ?T')"
    by (simp add: arrayAt_def c)
  from s1 s2 t1 t2 a b m n c show ?thesis by simp
qed

text \<open>
  The claim as written fails: the two right-hand notes of \<open>tiedNotes\<close> have the same
  pitch, and under a right-hand ceiling of one the right-to-left pass moves the second of
  them, not the first; both searches return the second one, and the balancer keeps the
  first note in the right hand and gives the second to the left.
\<close>

theorem rebalance_first_tie_counterexample:
  "arrayAt (storeOf tiedNotes) 0 = [0, 1] \<and>
   midi (noteAt (storeOf tiedNotes) 0) = midi (noteAt (storeOf tiedNotes) 1) \<and>
   maxRightHandNotes ceilingOne < int (length (arrayAt (storeOf tiedNotes) 0)) \<and>
   rebalance ceilingOne 0 1 (storeOf tiedNotes)
     = Some (Inr (), (storeOf tiedNotes)\<lparr>arrs := [[0], [1]]\<rparr>) \<and>
   reduceNotes lowerPitch (storeOf tiedNotes) [0, 1] = Inr 1 \<and>
   reduceNotes higherPitch (storeOf tiedNotes) [0, 1] = Inr 1 \<and>
   balancedArrangement ceilingOne tiedNotes
     = Some (Inr \<lparr>rightHand = [mkNote 60 0 2 (Some 1)], leftHand = [mkNote 60 1 1 (Some 1)]\<rparr>)"
  by code_simp

text \<open>
  Claim C8. A call of the balancer always ends, with a result or with an exception, and
  in either case every note object and every array of notes that existed before the call
  is in the store afterwards, at its address and unchanged. The two arrays it returns did
  not exist before the call, and they hold only references to note objects that did not
  exist before the call, each at most once.
\<close>

theorem optimizeSimultaneousNotes_frame:
  "\<exists>res s'. optimizeSimultaneousNotes rh lh cfg s = Some (res, s') \<and>
     take (length (objs s)) (objs s') = objs s \<and>
     take (length (arrs s)) (arrs s') = arrs s \<and>
     (\<forall>oR oL. res = Inr (oR, oL) \<longrightarrow>
        length (arrs s) \<le> oR \<and> oR < oL \<and> oL < length (arrs s') \<and>
        distinct (arrayAt s' oR) \<and> distinct (arrayAt s' oL) \<and>
        (\<forall>r\<in>set (arrayAt s' oR) \<union> set (arrayAt s' oL). length (objs s) \<le> r \<and> r < length (objs s')))"
proof -
  from optimizeSimultaneousNotes_total [of rh lh cfg s] obtain res s' where
    t: "optimizeSimultaneousNotes rh lh cfg s = Some (res, s')" "evolves {} s s'"
       "\<forall>oR oL. res = Inr (oR, oL) \<longrightarrow>
          length (arrs s) \<le> oR \<and> oR < oL \<and> oL < length (arrs s') \<and>
          distinct (arrs s' ! oR) \<and> distinct (arrs s' ! oL) \<and>
          set (arrs s' ! oR) \<union> set (arrs s' ! oL) \<subseteq> {length (objs s)..<length (objs s')}"
    by blast
  from t(3) have "\<forall>oR oL. res = Inr (oR, oL) \<longrightarrow>
        length (arrs s) \<le> oR \<and> oR < oL \<and> oL < length (arrs s') \<and>
        distinct (arrayAt s' oR) \<and> distinct (arrayAt s' oL) \<and>
        (\<forall>r\<in>set (arrayAt s' oR) \<union> set (arrayAt s' oL). length (objs s) \<le> r \<and> r < length (objs s'))"
  proof (intro allI impI)
    fix oR oL assume "res = Inr (oR, oL)"
    with t(3) have *: "length (arrs s) \<le> oR \<and> oR < oL \<and> oL < length (arrs s') \<and>
          distinct (arrs s' ! oR) \<and> distinct (arrs s' ! oL)"
      and sub: "set (arrs s' ! oR) \<union> set (arrs s' ! oL) \<subseteq> {length (objs s)..<length (objs s')}"
      by simp_all
    have "\<forall>r\<in>set (arrs s' ! oR) \<union> set (arrs s' ! oL). length (objs s) \<le> r \<and> r < length (objs s')"
      using sub by fastforce
    with * show "length (arrs s) \<le> oR \<and> oR < oL \<and> oL < length (arrs s') \<and>
        distinct (arrayAt s' oR) \<and> distinct (arrayAt s' oL) \<and>
        (\<forall>r\<in>set (arrayAt s' oR) \<union> set (arrayAt s' oL). length (objs s) \<le> r \<and> r < length (objs s'))"
      by (simp add: arrayAt_def)
  qed
  with t(1) evolves_empty_take [OF t(2)] show ?thesis by blast
qed
theorem optimizeSimultaneousNotes_frame_witness:
  "\<exists>s'. optimizeSimultaneousNotes 0 1 ceilingOne (storeOf tiedNotes) = Some (Inr (7, 8), s') \<and>
        take 2 (objs s') = objs (storeOf tiedNotes) \<and>
        take 2 (arrs s') = arrs (storeOf tiedNotes) \<and>
        arrayAt s' 7 = [4] \<and> arrayAt s' 8 = [5] \<and> length (objs s') = 6"
proof -
  have r: "map_option fst (optimizeSimultaneousNotes 0 1 ceilingOne (storeOf tiedNotes)) = Some (Inr (7, 8))"
    by code_simp
  have v: "map_option (\<lambda>(res, s'). (arrayAt s' 7, arrayAt s' 8, length (objs s')))
             (optimizeSimultaneousNotes 0 1 ceilingOne (storeOf tiedNotes)) = Some ([4], [5], 6)"
    by code_simp
  have l: "length (objs (storeOf tiedNotes)) = 2" "length (arrs (storeOf tiedNotes)) = 2"
    by (simp_all add: storeOf_def tiedNotes_def)
  from optimizeSimultaneousNotes_frame [of 0 1 ceilingOne "storeOf tiedNotes"] r v l
  show ?thesis by auto
qed

text \<open>
  Claim C9. In the processing of a slice, with a left-hand ceiling that is not negative,
  the two passes over the two freshly filtered subsets always end, and an exception can
  only come from a negative right-hand ceiling. When they end without an exception, the
  left subset holds at most \<open>maxLeftHandNotes\<close> notes, the processing of the slice
  ends without an exception as well, and the left subset is then still what the two
  passes left: merging into the results adds nothing to it.
\<close>

theorem rebalance_left_ceiling:
  assumes "filterActive rc (startTime slice) (endTime slice) s = (sr, s1)"
    "filterActive lc (startTime slice) (endTime slice) s1 = (sl, s2)"
    "optimizedRight < length (arrs s)" "optimizedLeft < length (arrs s)"
    "0 \<le> maxLeftHandNotes cfg"
  shows "\<exists>res s3. rebalance cfg sr sl s2 = Some (res, s3) \<and>
           (0 \<le> maxRightHandNotes cfg \<longrightarrow> res = Inr ()) \<and>
           (res = Inr () \<longrightarrow>
              int (length (arrayAt s3 sl)) \<le> maxLeftHandNotes cfg \<and>
              (\<exists>s'. processSlice cfg rc lc optimizedRight optimizedLeft slice s = Some (Inr (), s') \<and>
                    arrayAt s' sl = arrayAt s3 sl))"
proof -
  have sr: "sr = length (arrs s)" and s1: "s1 = snd (filterActive rc (startTime slice) (endTime slice) s)"
    using assms(1) by (simp_all add: filterActive_def newArr_def)
  have sl: "sl = length (arrs s1)" and s2: "s2 = snd (filterActive lc (startTime slice) (endTime slice) s1)"
    using assms(2) by (simp_all add: filterActive_def newArr_def)
  have pre: "sr \<noteq> sl" "sr < length (arrs s2)" "sl < length (arrs s2)"
    by (simp_all add: sr sl s1 s2)
  from rebalance_total [OF pre, of cfg] obtain res xs ys where
    r: "rebalance cfg sr sl s2 = Some (res, s2\<lparr>arrs := (arrs s2)[sr := xs, sl := ys]\<rparr>)"
       "res = Inr () \<longrightarrow> int (length ys) \<le> maxLeftHandNotes cfg"
       "0 \<le> maxLeftHandNotes cfg \<longrightarrow> res \<noteq> Inr () \<longrightarrow> maxRightHandNotes cfg < 0"
    by blast
  let ?s3 = "s2\<lparr>arrs := (arrs s2)[sr := xs, sl := ys]\<rparr>"
  let ?s4 = "mergeInto optimizedRight sr ?s3"
  let ?s5 = "mergeInto optimizedLeft sl ?s4"
  have at3: "arrayAt ?s3 sl = ys"
    using pre by (simp add: arrayAt_def)
  have len3: "length (arrs ?s3) = Suc (Suc (length (arrs s)))"
    by (simp add: s1 s2)
  have sl': "sl = Suc (length (arrs s))" by (simp add: sl s1)
  have a34: "appended optimizedRight ?s3 ?s4"
    using assms(3) len3 by (intro mergeInto_appended) simp
  then have len4: "length (arrs ?s4) = length (arrs ?s3)" by (simp add: appended_def)
  have a45: "appended optimizedLeft ?s4 ?s5"
    using assms(4) len3 len4 by (intro mergeInto_appended) simp
  have "arrs ?s4 ! sl = arrs ?s3 ! sl"
    using a34 assms(3) len3 sl' by (intro evolves_nth [of "{optimizedRight}"]) (auto simp: appended_def)
  moreover have "arrs ?s5 ! sl = arrs ?s4 ! sl"
    using a45 assms(4) len3 len4 sl' by (intro evolves_nth [of "{optimizedLeft}"]) (auto simp: appended_def)
  ultimately have keep: "arrayAt ?s5 sl = arrayAt ?s3 sl"
    by (simp add: arrayAt_def)
  have ps: "res = Inr () \<Longrightarrow>
      processSlice cfg rc lc optimizedRight optimizedLeft slice s = Some (Inr (), ?s5)"
    using assms(1,2) r(1) by (simp add: processSlice_def)
  from r assms(5) at3 keep ps show ?thesis
    by (intro exI [of _ res] exI [of _ ?s3]) auto
qed

text \<open>The example store is the one the balancer builds for \<open>twoTogether\<close> before it
  enters the loop over the slices. Under the ceilings one and zero, the left subset ends
  empty and the right subset ends with both notes, above its own ceiling.\<close>

theorem rebalance_left_ceiling_witness:
  "(let (rightHandCopy, s1) = mapCopy 0 (storeOf twoTogether);
        (leftHandCopy, s2) = mapCopy 1 s1;
        (allNotes, s3) = newArr (arrayAt s2 rightHandCopy @ arrayAt s2 leftHandCopy) s2;
        (timeSlices, s4) = createTimeSlices allNotes s3;
        (optimizedRight, s5) = newArr [] s4;
        (optimizedLeft, s6) = newArr [] s5
    in (rightHandCopy, leftHandCopy, timeSlices, optimizedRight, optimizedLeft, s6))
     = (2, 3, [onlySlice], 6, 7, sliceStore) \<and>
   filterActive 2 (startTime onlySlice) (endTime onlySlice) sliceStore
     = (8, snd (filterActive 2 0 1 sliceStore)) \<and>
   filterActive 3 (startTime onlySlice) (endTime onlySlice) (snd (filterActive 2 0 1 sliceStore))
     = (9, snd (filterActive 3 0 1 (snd (filterActive 2 0 1 sliceStore)))) \<and>
   (6::nat) < length (arrs sliceStore) \<and> (7::nat) < length (arrs sliceStore) \<and>
   0 \<le> maxLeftHandNotes ceilingsOneZero \<and>
   (\<exists>s3 s'. rebalance ceilingsOneZero 8 9 (snd (filterActive 3 0 1 (snd (filterActive 2 0 1 sliceStore))))
               = Some (Inr (), s3) \<and>
            arrayAt s3 9 = [] \<and> arrayAt s3 8 = [3, 2] \<and>
            int (length (arrayAt s3 9)) \<le> maxLeftHandNotes ceilingsOneZero \<and>
            maxRightHandNotes ceilingsOneZero < int (length (arrayAt s3 8)) \<and>
            processSlice ceilingsOneZero 2 3 6 7 onlySlice sliceStore = Some (Inr (), s') \<and>
            arrayAt s' 9 = [])"
proof -
  let ?s1 = "snd (filterActive 2 0 1 sliceStore)"
  let ?s2 = "snd (filterActive 3 0 1 ?s1)"
  have f1: "filterActive 2 (startTime onlySlice) (endTime onlySlice) sliceStore = (8, ?s1)"
    by (simp add: filterActive_def newArr_def sliceStore_def onlySlice_def)
  have f2: "filterActive 3 (startTime onlySlice) (endTime onlySlice) ?s1 = (9, ?s2)"
    by (simp add: filterActive_def newArr_def sliceStore_def onlySlice_def)
  have o: "(6::nat) < length (arrs sliceStore)" "(7::nat) < length (arrs sliceStore)"
    by (simp_all add: sliceStore_def)
  have c: "0 \<le> maxLeftHandNotes ceilingsOneZero" "0 \<le> maxRightHandNotes ceilingsOneZero"
    "maxLeftHandNotes ceilingsOneZero = 0" "maxRightHandNotes ceilingsOneZero = 1"
    by (simp_all add: ceilingsOneZero_def defaultOptions_def)
  have v: "map_option (\<lambda>(res, s3). (arrayAt s3 9, arrayAt s3 8)) (rebalance ceilingsOneZero 8 9 ?s2)
             = Some ([], [3, 2])"
    by code_simp
  have reached:
    "(let (rightHandCopy, s1) = mapCopy 0 (storeOf twoTogether);
          (leftHandCopy, s2) = mapCopy 1 s1;
          (allNotes, s3) = newArr (arrayAt s2 rightHandCopy @ arrayAt s2 leftHandCopy) s2;
          (timeSlices, s4) = createTimeSlices allNotes s3;
          (optimizedRight, s5) = newArr [] s4;
          (optimizedLeft, s6) = newArr [] s5
      in (rightHandCopy, leftHandCopy, timeSlices, optimizedRight, optimizedLeft, s6))
     = (2, 3, [onlySlice], 6, 7, sliceStore)"
    by code_simp
  from rebalance_left_ceiling [OF f1 f2 o c(1)] c(2) obtain s3 s' where
    "rebalance ceilingsOneZero 8 9 ?s2 = Some (Inr (), s3)"
    "int (length (arrayAt s3 9)) \<le> maxLeftHandNotes ceilingsOneZero"
    "processSlice ceilingsOneZero 2 3 6 7 onlySlice sliceStore = Some (Inr (), s')"
    "arrayAt s' 9 = arrayAt s3 9"
    by auto
  with v f1 f2 o c have
    "filterActive 2 (startTime onlySlice) (endTime onlySlice) sliceStore
       = (8, snd (filterActive 2 0 1 sliceStore)) \<and>
     filterActive 3 (startTime onlySlice) (endTime onlySlice) (snd (filterActive 2 0 1 sliceStore))
       = (9, snd (filterActive 3 0 1 (snd (filterActive 2 0 1 sliceStore)))) \<and>
     (6::nat) < length (arrs sliceStore) \<and> (7::nat) < length (arrs sliceStore) \<and>
     0 \<le> maxLeftHandNotes ceilingsOneZero \<and>
     (\<exists>s3 s'. rebalance ceilingsOneZero 8 9 (snd (filterActive 3 0 1 (snd (filterActive 2 0 1 sliceStore))))
                 = Some (Inr (), s3) \<and>
              arrayAt s3 9 = [] \<and> arrayAt s3 8 = [3, 2] \<and>
              int (length (arrayAt s3 9)) \<le> maxLeftHandNotes ceilingsOneZero \<and>
              maxRightHandNotes ceilingsOneZero < int (length (arrayAt s3 8)) \<and>
              processSlice ceilingsOneZero 2 3 6 7 onlySlice sliceStore = Some (Inr (), s') \<and>
              arrayAt s' 9 = [])"
    by auto
  with reached show ?thesis by (rule conjI)
qed

text \<open>
  Claim C10. With a limit that is not negative, a rebalancing loop over two different
  arrays always ends without an exception, every iteration makes the array it shrinks
  one note shorter, and at the end that array has the smaller of its old length and the
  limit. The two loops of a slice always end, and they end without an exception exactly
  when neither ceiling is negative. With both ceilings not negative, the balancer as a
  whole ends without an exception. With a right-hand or a left-hand ceiling of minus
  one, the balancer throws the \<^verbatim>\<open>TypeError\<close> of \<^verbatim>\<open>reduce\<close> on the empty array.
\<close>

theorem rebalancing_loops_terminate:
  "(src \<noteq> dst \<and> src < length (arrs s) \<and> dst < length (arrs s) \<and> 0 \<le> limit \<longrightarrow>
      (\<forall>s'. moveNote keep src dst s = Inr s' \<longrightarrow> Suc (length (arrayAt s' src)) = length (arrayAt s src)) \<and>
      (\<exists>s'. moveWhileOver keep limit src dst s = Some (Inr (), s') \<and>
            length (arrayAt s' src) = min (length (arrayAt s src)) (nat limit))) \<and>
   (src \<noteq> dst \<and> src < length (arrs s) \<and> dst < length (arrs s) \<longrightarrow>
      (\<exists>res s'. rebalance cfg src dst s = Some (res, s') \<and>
         (res = Inr () \<longleftrightarrow> 0 \<le> maxRightHandNotes cfg \<and> 0 \<le> maxLeftHandNotes cfg))) \<and>
   (0 \<le> maxRightHandNotes cfg \<and> 0 \<le> maxLeftHandNotes cfg \<longrightarrow>
      (\<exists>oR oL s'. optimizeSimultaneousNotes rh lh cfg s = Some (Inr (oR, oL), s'))) \<and>
   map_option fst (optimizeSimultaneousNotes 0 1 negativeCeiling (storeOf twoTogether))
     = Some (Inl TypeError) \<and>
   map_option fst (optimizeSimultaneousNotes 0 1 negativeLeftCeiling (storeOf twoTogether))
     = Some (Inl TypeError)"
proof (intro conjI impI)
  assume a: "src \<noteq> dst \<and> src < length (arrs s) \<and> dst < length (arrs s) \<and> 0 \<le> limit"
  show "\<forall>s'. moveNote keep src dst s = Inr s' \<longrightarrow> Suc (length (arrayAt s' src)) = length (arrayAt s src)"
  proof (intro allI impI)
    fix s' assume m: "moveNote keep src dst s = Inr s'"
    then have ne: "arrs s ! src \<noteq> []" using moveNote_empty [of s src keep dst] by auto
    from moveNote_step [of src dst s keep] a ne m obtain r where
      "r \<in> set (arrs s ! src)"
      "s' = s\<lparr>arrs := (arrs s)[src := remove1 r (arrs s ! src), dst := arrs s ! dst @ [r]]\<rparr>"
      by auto
    then show "Suc (length (arrayAt s' src)) = length (arrayAt s src)"
      using a ne by (simp add: arrayAt_def length_remove1)
  qed
  from moveWhileOver_total [of src dst s keep limit] a obtain res xs ys where
    l: "moveWhileOver keep limit src dst s = Some (res, s\<lparr>arrs := (arrs s)[src := xs, dst := ys]\<rparr>)"
       "res \<noteq> Inr () \<longrightarrow> xs = [] \<and> limit < 0"
       "0 \<le> limit \<longrightarrow> length xs = min (length (arrs s ! src)) (nat limit)"
    by blast
  have "arrayAt (s\<lparr>arrs := (arrs s)[src := xs, dst := ys]\<rparr>) src = xs"
    using a by (simp add: arrayAt_def)
  with l a show "\<exists>s'. moveWhileOver keep limit src dst s = Some (Inr (), s') \<and>
            length (arrayAt s' src) = min (length (arrayAt s src)) (nat limit)"
    by (intro exI [of _ "s\<lparr>arrs := (arrs s)[src := xs, dst := ys]\<rparr>"]) (auto simp: arrayAt_def)
next
  assume "src \<noteq> dst \<and> src < length (arrs s) \<and> dst < length (arrs s)"
  then show "\<exists>res s'. rebalance cfg src dst s = Some (res, s') \<and>
         (res = Inr () \<longleftrightarrow> 0 \<le> maxRightHandNotes cfg \<and> 0 \<le> maxLeftHandNotes cfg)"
    using rebalance_ok_iff [of src dst s cfg] by blast
next
  assume c: "0 \<le> maxRightHandNotes cfg \<and> 0 \<le> maxLeftHandNotes cfg"
  from optimizeSimultaneousNotes_total [of rh lh cfg s] obtain res s' where
    t: "optimizeSimultaneousNotes rh lh cfg s = Some (res, s')"
       "(\<exists>e. res = Inl e) \<longrightarrow> maxRightHandNotes cfg < 0 \<or> maxLeftHandNotes cfg < 0"
    by blast
  with c obtain oR oL where "res = Inr (oR, oL)" by (cases res) auto
  with t(1) show "\<exists>oR oL s'. optimizeSimultaneousNotes rh lh cfg s = Some (Inr (oR, oL), s')"
    by blast
next
  show "map_option fst (optimizeSimultaneousNotes 0 1 negativeCeiling (storeOf twoTogether))
     = Some (Inl TypeError)"
    by code_simp
  show "map_option fst (optimizeSimultaneousNotes 0 1 negativeLeftCeiling (storeOf twoTogether))
     = Some (Inl TypeError)"
    by code_simp
qed
theorem rebalancing_loops_terminate_witness:
  "(0::nat) \<noteq> 1 \<and> 0 < length (arrs (storeOf tiedNotes)) \<and> 1 < length (arrs (storeOf tiedNotes)) \<and>
   (0::int) \<le> 1 \<and> 0 \<le> maxRightHandNotes ceilingOne \<and> 0 \<le> maxLeftHandNotes ceilingOne \<and>
   (\<exists>s'. moveWhileOver lowerPitch 1 0 1 (storeOf tiedNotes) = Some (Inr (), s') \<and>
         length (arrayAt s' 0) = 1) \<and>
   (\<exists>s'. rebalance ceilingOne 0 1 (storeOf tiedNotes) = Some (Inr (), s')) \<and>
   (\<exists>oR oL s'. optimizeSimultaneousNotes 0 1 ceilingOne (storeOf tiedNotes) = Some (Inr (oR, oL), s'))"
proof -
  have pre: "(0::nat) \<noteq> 1" "0 < length (arrs (storeOf tiedNotes))" "1 < length (arrs (storeOf tiedNotes))"
    "length (arrayAt (storeOf tiedNotes) 0) = 2"
    by (simp_all add: storeOf_def tiedNotes_def arrayAt_def)
  have c: "0 \<le> maxRightHandNotes ceilingOne" "0 \<le> maxLeftHandNotes ceilingOne"
    by (simp_all add: ceilingOne_def defaultOptions_def)
  from rebalancing_loops_terminate [of 0 1 "storeOf tiedNotes" 1 lowerPitch ceilingOne 0 1] pre c
  show ?thesis by auto
qed

end
